theory Spec2Isabelle
  imports Main
begin

section \<open>The error-code deduplicator of \<open>packages/core/fix_error_codes.py\<close>\<close>

text \<open>
  The script reads a file into \<open>content\<close>, collects the matches of one regular expression,
  walks them once and splices a fresh number over every repeated code at or above 2134,
  then writes \<open>content\<close> back and prints \<open>next_code\<close>. Failures of the file system are left
  out: the model takes the text that was read and returns what the run leaves behind, that
  is the text the file then holds, the printed counter and the exception raised, if any.

  A Python \<open>str\<close> is a sequence of code points. A \<open>char\<close> stands for one code point below
  256; the character classes below are those of Python's \<open>re\<close> module for \<open>str\<close> patterns
  on that range.
\<close>

subsection \<open>Character classes of the \<open>re\<close> module\<close>

definition is_space :: "char \<Rightarrow> bool" where
  \<comment> \<open>\<open>\s\<close>: tab to carriage return, the separators 28 to 31, blank, NEL, no-break space\<close>
  "is_space c = (let n = (of_char c :: nat) in
     (9 \<le> n \<and> n \<le> 13) \<or> (28 \<le> n \<and> n \<le> 32) \<or> n = 133 \<or> n = 160)"

definition is_digit :: "char \<Rightarrow> bool" where
  \<comment> \<open>\<open>\d\<close>: the decimal digits\<close>
  "is_digit c = (let n = (of_char c :: nat) in 48 \<le> n \<and> n \<le> 57)"

definition is_word :: "char \<Rightarrow> bool" where
  \<comment> \<open>\<open>\w\<close>: alphanumeric code points and the underscore\<close>
  "is_word c = (let n = (of_char c :: nat) in
     (48 \<le> n \<and> n \<le> 57) \<or> (65 \<le> n \<and> n \<le> 90) \<or> n = 95 \<or> (97 \<le> n \<and> n \<le> 122) \<or>
     n = 170 \<or> n = 178 \<or> n = 179 \<or> n = 181 \<or> n = 185 \<or> n = 186 \<or>
     (188 \<le> n \<and> n \<le> 190) \<or> (192 \<le> n \<and> n \<le> 214) \<or> (216 \<le> n \<and> n \<le> 246) \<or>
     (248 \<le> n \<and> n \<le> 255))"

datatype cclass = Space | Word | Digit

fun in_class :: "cclass \<Rightarrow> char \<Rightarrow> bool" where
  "in_class Space c = is_space c"
| "in_class Word c = is_word c"
| "in_class Digit c = is_digit c"

subsection \<open>A backtracking matcher for the constructs the pattern uses\<close>

datatype regex =
    Lit char            \<comment> \<open>a literal character\<close>
  | Plus cclass         \<comment> \<open>greedy \<open>+\<close> over a class\<close>
  | Star cclass         \<comment> \<open>greedy \<open>*\<close> over a class\<close>
  | Cat regex regex     \<comment> \<open>concatenation\<close>

text \<open>
  \<open>ends r s\<close> lists the numbers of characters that \<open>r\<close> can consume at the front of \<open>s\<close>,
  in the order in which a backtracking engine tries them: a greedy repetition offers its
  longest run first and gives characters back one at a time.
\<close>

fun ends :: "regex \<Rightarrow> string \<Rightarrow> nat list" where
  "ends (Lit c) s = (case s of [] \<Rightarrow> [] | x # _ \<Rightarrow> if x = c then [1] else [])"
| "ends (Plus k) s = rev [1 ..< Suc (length (takeWhile (in_class k) s))]"
| "ends (Star k) s = rev [0 ..< Suc (length (takeWhile (in_class k) s))]"
| "ends (Cat a b) s = concat (map (\<lambda>i. map (\<lambda>j. i + j) (ends b (drop i s))) (ends a s))"

text \<open>The pattern \<^verbatim>\<open>(\s+\w+\s*=\s*)(\d+),\<close> in its three parts.\<close>

definition group1 :: regex where
  "group1 = Cat (Plus Space) (Cat (Plus Word) (Cat (Star Space) (Cat (Lit CHR ''='') (Star Space))))"

definition group2 :: regex where
  "group2 = Plus Digit"

definition comma :: regex where
  "comma = Lit CHR '',''"

text \<open>
  \<open>match_at s\<close> is the first way, in backtracking order, in which the whole pattern matches
  at the front of \<open>s\<close>: the length of group 1 and the length of group 2.
\<close>

definition attempts :: "string \<Rightarrow> (nat \<times> nat) list" where
  "attempts s = concat (map (\<lambda>i. concat (map (\<lambda>j. map (\<lambda>_. (i, j)) (ends comma (drop (i + j) s)))
                                            (ends group2 (drop i s))))
                            (ends group1 s))"

definition match_at :: "string \<Rightarrow> (nat \<times> nat) option" where
  "match_at s = (case attempts s of [] \<Rightarrow> None | a # _ \<Rightarrow> Some a)"

record re_match =
  m_start :: nat      \<comment> \<open>\<open>match.start()\<close>\<close>
  start2 :: nat       \<comment> \<open>\<open>match.start(2)\<close>\<close>
  end2 :: nat         \<comment> \<open>\<open>match.end(2)\<close>\<close>
  m_end :: nat        \<comment> \<open>\<open>match.end()\<close>\<close>
  group2_text :: string  \<comment> \<open>\<open>match.group(2)\<close>, a slice of the text that was scanned\<close>

text \<open>
  \<open>re.finditer\<close>: try the pattern at the current position; after a match go on behind it,
  otherwise one character further, until the end of the text has been tried as well.
  \<open>pos\<close> is the offset of \<open>s\<close> in the scanned text.
\<close>

function scan :: "nat \<Rightarrow> string \<Rightarrow> re_match list" where
  "scan pos s =
     (case match_at s of
        Some (i, j) \<Rightarrow>
          \<lparr>m_start = pos, start2 = pos + i, end2 = pos + i + j, m_end = pos + i + j + 1,
           group2_text = take j (drop i s)\<rparr>
          # scan (pos + i + j + 1) (drop (i + j + 1) s)
      | None \<Rightarrow> (case s of [] \<Rightarrow> [] | _ # t \<Rightarrow> scan (pos + 1) t))"
  by pat_completeness auto
termination
proof (relation "measure (\<lambda>(pos, s). length s)")
  show "wf (measure (\<lambda>(pos, s). length s))" by simp
next
  fix pos :: nat and s :: string and x2 :: "nat \<times> nat" and i j :: nat
  assume "match_at s = Some x2"
  moreover have "attempts [] = []"
    by (simp add: attempts_def comma_def)
  ultimately have "s \<noteq> []"
    by (auto simp: match_at_def)
  then show "((pos + i + j + 1, drop (i + j + 1) s), pos, s) \<in> measure (\<lambda>(pos, s). length s)"
    by simp
next
  fix pos :: nat and s :: string and x21 x22
  assume "match_at s = None" "s = x21 # x22"
  then show "((pos + 1, x22), pos, s) \<in> measure (\<lambda>(pos, s). length s)" by simp
qed

declare scan.simps [simp del]

definition finditer :: "string \<Rightarrow> re_match list" where
  "finditer text = scan 0 text"

subsection \<open>\<open>int\<close> and \<open>str\<close>\<close>

text \<open>
  Python's integers are unbounded, but CPython refuses to convert between \<open>int\<close> and
  \<open>str\<close> beyond \<open>sys.int_info.default_max_str_digits\<close> = 4300 decimal digits: \<open>int\<close> of a
  digit string of more than 4300 characters (leading zeros count) and \<open>str\<close> of a number of
  more than 4300 digits raise \<open>ValueError\<close>.
\<close>

datatype error = ValueError

definition max_str_digits :: int where
  "max_str_digits = 4300"

definition digit_val :: "char \<Rightarrow> int" where
  "digit_val c = of_char c - 48"

definition digits_value :: "string \<Rightarrow> int" where
  \<comment> \<open>the number that a string of decimal digits denotes\<close>
  "digits_value s = foldl (\<lambda>a c. 10 * a + digit_val c) 0 s"

definition py_int :: "string \<Rightarrow> error + int" where
  \<comment> \<open>\<open>int(s)\<close> on a string of decimal digits; anything else counts as the \<open>ValueError\<close>\<close>
  "py_int s = (if s \<noteq> [] \<and> list_all is_digit s \<and> int (length s) \<le> max_str_digits
               then Inr (digits_value s) else Inl ValueError)"

definition digit_char :: "int \<Rightarrow> char" where
  "digit_char d = ''0123456789'' ! nat d"

function str_digits :: "int \<Rightarrow> string" where
  \<comment> \<open>the decimal digits of a number that is not negative\<close>
  "str_digits n = (if n < 10 then [digit_char n] else str_digits (n div 10) @ [digit_char (n mod 10)])"
  by pat_completeness auto
termination
  by (relation "measure nat") auto

declare str_digits.simps [simp del]

definition str :: "int \<Rightarrow> error + string" where
  \<comment> \<open>\<open>str(i)\<close>; the sign does not count towards the limit\<close>
  "str i = (let ds = str_digits (if i < 0 then - i else i) in
            if int (length ds) > max_str_digits then Inl ValueError
            else Inr (if i < 0 then CHR ''-'' # ds else ds))"

subsection \<open>The loop\<close>

record state =
  content :: string
  seen_codes :: "int \<rightharpoonup> bool"
  next_code :: int

definition splice :: "re_match \<Rightarrow> string \<Rightarrow> string \<Rightarrow> string" where
  \<comment> \<open>\<open>content[:match.start(2)] + new + content[match.end(2):]\<close>; slices clip at the end of the text\<close>
  "splice m new c = take (start2 m) c @ new @ drop (end2 m) c"

definition loop_body :: "re_match \<Rightarrow> state \<Rightarrow> error + state" where
  "loop_body m st =
     (case py_int (group2_text m) of
        Inl e \<Rightarrow> Inl e
      | Inr code \<Rightarrow>
          if code \<ge> 2134 then
            (if seen_codes st code \<noteq> None then
               (case str (next_code st) of
                  Inl e \<Rightarrow> Inl e
                | Inr new \<Rightarrow>
                    Inr (st\<lparr>content := splice m new (content st),
                            next_code := next_code st + 1\<rparr>))
             else
               Inr (let st' = st\<lparr>seen_codes := (seen_codes st)(code \<mapsto> True)\<rparr>
                    in if code \<ge> next_code st' then st'\<lparr>next_code := code + 1\<rparr> else st'))
          else Inr st)"

fun for_loop :: "re_match list \<Rightarrow> state \<Rightarrow> error + state" where
  "for_loop [] st = Inr st"
| "for_loop (m # ms) st =
     (case loop_body m st of Inl e \<Rightarrow> Inl e | Inr st' \<Rightarrow> for_loop ms st')"

definition init_state :: "string \<Rightarrow> state" where
  "init_state text = \<lparr>content = text, seen_codes = Map.empty, next_code = 2135\<rparr>"

text \<open>
  What a run of the script leaves behind: the text the file holds when the script has ended
  (what line 29 wrote, or the text as it was read when an exception ended the script before
  the file was opened for writing), the number in the status line if it was printed, and the
  exception if one was raised. Formatting \<open>next_code\<close> for the status line is a \<open>str\<close>
  conversion too.
\<close>

record outcome =
  file_text :: string
  printed :: "int option"
  raised :: "error option"

definition finish :: "string \<Rightarrow> error + state \<Rightarrow> outcome" where
  "finish text r =
     (case r of
        Inl e \<Rightarrow> \<lparr>file_text = text, printed = None, raised = Some e\<rparr>
      | Inr st \<Rightarrow>
          (case str (next_code st) of
             Inl e \<Rightarrow> \<lparr>file_text = content st, printed = None, raised = Some e\<rparr>
           | Inr _ \<Rightarrow> \<lparr>file_text = content st, printed = Some (next_code st), raised = None\<rparr>))"

definition fix_error_codes :: "string \<Rightarrow> outcome" where
  "fix_error_codes text = finish text (for_loop (finditer text) (init_state text))"

subsection \<open>Notions the properties are stated with\<close>

text \<open>The codes of a list of matches, in order, and those of them that qualify.\<close>

definition matched_codes :: "re_match list \<Rightarrow> int list" where
  "matched_codes ms = map (\<lambda>m. digits_value (group2_text m)) ms"

definition qualifying :: "int list \<Rightarrow> int list" where
  "qualifying cs = filter (\<lambda>code. code \<ge> 2134) cs"

definition qualifying_codes :: "string \<Rightarrow> int list" where
  "qualifying_codes text = qualifying (matched_codes (finditer text))"

text \<open>
  The loop body replaces a code exactly when it takes its first branch and \<open>str\<close> returns.
  \<open>replacements\<close> lists, for a run of the loop, every number handed out together with
  \<open>seen_codes\<close> as it was at that moment.
\<close>

definition is_duplicate :: "re_match \<Rightarrow> state \<Rightarrow> bool" where
  "is_duplicate m st =
     (case py_int (group2_text m) of
        Inl _ \<Rightarrow> False
      | Inr code \<Rightarrow> code \<ge> 2134 \<and> seen_codes st code \<noteq> None)"

fun replacements :: "re_match list \<Rightarrow> state \<Rightarrow> ((int \<rightharpoonup> bool) \<times> int) list" where
  "replacements [] st = []"
| "replacements (m # ms) st =
     (case loop_body m st of
        Inl e \<Rightarrow> []
      | Inr st' \<Rightarrow>
          (if is_duplicate m st then [(seen_codes st, next_code st)] else [])
          @ replacements ms st')"

text \<open>
  A text on which no conversion reaches the limit: every matched digit string has at most
  4300 characters, and the codes, counted up once for each match, stay below \<open>10 ^ 4300\<close>,
  the least number of 4301 digits.
\<close>

definition int_limit :: int where
  \<comment> \<open>the least number that has more than 4300 digits\<close>
  "int_limit = 10 ^ nat max_str_digits"

definition within_limits :: "string \<Rightarrow> bool" where
  "within_limits text \<longleftrightarrow>
     2135 + int (length (finditer text)) < int_limit
     \<and> list_all (\<lambda>m. int (length (group2_text m)) \<le> max_str_digits
                     \<and> digits_value (group2_text m) + int (length (finditer text)) < int_limit)
          (finditer text)"



text \<open>The text between \<open>match.start()\<close> and \<open>match.end()\<close>.\<close>

definition matched_text :: "string \<Rightarrow> re_match \<Rightarrow> string" where
  "matched_text text m = take (m_end m - m_start m) (drop (m_start m) text)"

text \<open>
  The shape of a matched substring: whitespace (at least one character), word characters
  (at least one), whitespace (maybe none), the equals sign, whitespace (maybe none),
  digits (at least one), and a comma. \<open>splits_as s ws w ws2 ws3 ds rest\<close> cuts \<open>s\<close> into
  these parts and what follows the comma.
\<close>

definition splits_as ::
  "string \<Rightarrow> string \<Rightarrow> string \<Rightarrow> string \<Rightarrow> string \<Rightarrow> string \<Rightarrow> string \<Rightarrow> bool" where
  "splits_as s ws w ws2 ws3 ds rest \<longleftrightarrow>
     s = ws @ w @ ws2 @ CHR ''='' # ws3 @ ds @ CHR '','' # rest
     \<and> ws \<noteq> [] \<and> list_all is_space ws
     \<and> w \<noteq> [] \<and> list_all is_word w
     \<and> list_all is_space ws2
     \<and> list_all is_space ws3
     \<and> ds \<noteq> [] \<and> list_all is_digit ds"

definition assignment_form :: "string \<Rightarrow> bool" where
  "assignment_form a \<longleftrightarrow> (\<exists>ws w ws2 ws3 ds. splits_as a ws w ws2 ws3 ds [])"


section \<open>Properties\<close>

subsection \<open>What the matcher accepts\<close>

lemma in_class_eq [simp]:
  "in_class Space = is_space" "in_class Word = is_word" "in_class Digit = is_digit"
  by (rule ext, simp)+

lemma le_takeWhile_iff:
  "n \<le> length (takeWhile P s) \<longleftrightarrow> n \<le> length s \<and> list_all P (take n s)"
proof
  assume h: "n \<le> length (takeWhile P s)"
  have "n \<le> length s"
    using h length_takeWhile_le [of P s] by (rule order_trans)
  moreover have "take n s = take n (takeWhile P s)"
    using h by (metis takeWhile_dropWhile_id take_append append_Nil2 diff_is_0_eq take_0)
  moreover have "list_all P (take n (takeWhile P s))"
    by (metis list_all_iff set_takeWhileD in_set_takeD)
  ultimately show "n \<le> length s \<and> list_all P (take n s)" by simp
next
  assume "n \<le> length s \<and> list_all P (take n s)"
  then show "n \<le> length (takeWhile P s)"
    by (intro length_takeWhile_less_P_nth) (auto simp: list_all_length)
qed

lemma ends_Plus_iff:
  "n \<in> set (ends (Plus k) s) \<longleftrightarrow> 1 \<le> n \<and> n \<le> length s \<and> list_all (in_class k) (take n s)"
  using le_takeWhile_iff [of n "in_class k" s] by auto

lemma ends_Star_iff:
  "n \<in> set (ends (Star k) s) \<longleftrightarrow> n \<le> length s \<and> list_all (in_class k) (take n s)"
  using le_takeWhile_iff [of n "in_class k" s] by auto

lemma ends_Lit_iff:
  "n \<in> set (ends (Lit c) s) \<longleftrightarrow> n = 1 \<and> (\<exists>t. s = c # t)"
  by (auto split: list.splits)

lemma ends_Cat_iff:
  "n \<in> set (ends (Cat a b) s) \<longleftrightarrow>
     (\<exists>i j. n = i + j \<and> i \<in> set (ends a s) \<and> j \<in> set (ends b (drop i s)))"
  by auto

lemma set_ends_comma:
  "set (ends comma t) = (if \<exists>u. t = CHR '','' # u then {1} else {})"
  by (auto simp: comma_def split: list.splits)

lemma attempts_iff:
  "(i, j) \<in> set (attempts s) \<longleftrightarrow>
     i \<in> set (ends group1 s) \<and> j \<in> set (ends group2 (drop i s))
     \<and> (\<exists>t. drop (i + j) s = CHR '','' # t)"
  unfolding attempts_def by (auto simp: set_ends_comma split: if_splits)

lemma match_at_in_attempts: "match_at s = Some a \<Longrightarrow> a \<in> set (attempts s)"
  by (auto simp: match_at_def split: list.splits)

lemma match_at_group2:
  assumes "match_at s = Some (i, j)"
  shows "take j (drop i s) \<noteq> [] \<and> list_all is_digit (take j (drop i s))"
proof -
  have "j \<in> set (ends group2 (drop i s))"
    using match_at_in_attempts [OF assms] by (simp add: attempts_iff)
  then have "1 \<le> j \<and> j \<le> length (drop i s) \<and> list_all is_digit (take j (drop i s))"
    unfolding group2_def ends_Plus_iff by simp
  then show ?thesis by auto
qed

text \<open>Every match that the scan reports is a match of the pattern at some offset.\<close>

lemma scan_match:
  "m \<in> set (scan pos s) \<Longrightarrow>
     \<exists>k i j. k \<le> length s \<and> match_at (drop k s) = Some (i, j) \<and>
       m = \<lparr>m_start = pos + k, start2 = pos + k + i, end2 = pos + k + i + j,
            m_end = pos + k + i + j + 1, group2_text = take j (drop i (drop k s))\<rparr>"
proof (induction pos s rule: scan.induct)
  case (1 pos s)
  show ?case
  proof (cases "match_at s")
    case None
    show ?thesis
    proof (cases s)
      case Nil
      with 1(3) None show ?thesis by (simp add: scan.simps [of pos "[]"])
    next
      case (Cons c t)
      with 1(3) None have "m \<in> set (scan (pos + 1) t)"
        by (simp add: scan.simps [of pos "c # t"])
      then obtain k i j where "k \<le> length t" "match_at (drop k t) = Some (i, j)"
        "m = \<lparr>m_start = pos + 1 + k, start2 = pos + 1 + k + i, end2 = pos + 1 + k + i + j,
            m_end = pos + 1 + k + i + j + 1, group2_text = take j (drop i (drop k t))\<rparr>"
        using "1.IH"(1) [OF None Cons] by blast
      then show ?thesis using Cons
        by (intro exI [of _ "Suc k"] exI [of _ i] exI [of _ j]) simp
    qed
  next
    case (Some a)
    obtain i j where a: "a = (i, j)" by (cases a)
    from 1(3) Some a consider
      "m = \<lparr>m_start = pos, start2 = pos + i, end2 = pos + i + j, m_end = pos + i + j + 1,
            group2_text = take j (drop i s)\<rparr>"
      | "m \<in> set (scan (pos + i + j + 1) (drop (i + j + 1) s))"
      by (auto simp: scan.simps [of pos s])
    then show ?thesis
    proof cases
      case 1
      then show ?thesis using Some a
        by (intro exI [of _ 0] exI [of _ i] exI [of _ j]) simp
    next
      case 2
      let ?d = "i + j + 1"
      have len: "?d \<le> length s"
      proof -
        have "\<exists>t. drop (i + j) s = CHR '','' # t"
          using match_at_in_attempts [of s "(i, j)"] Some a by (simp add: attempts_iff)
        then have "i + j < length s" by (cases "i + j < length s") auto
        then show ?thesis by simp
      qed
      obtain k i' j' where k: "k \<le> length (drop ?d s)"
        "match_at (drop k (drop ?d s)) = Some (i', j')"
        "m = \<lparr>m_start = pos + i + j + 1 + k, start2 = pos + i + j + 1 + k + i',
            end2 = pos + i + j + 1 + k + i' + j', m_end = pos + i + j + 1 + k + i' + j' + 1,
            group2_text = take j' (drop i' (drop k (drop ?d s)))\<rparr>"
        using "1.IH"(2) [OF Some a [symmetric] 2] by blast
      show ?thesis
        using k len
        by (intro exI [of _ "?d + k"] exI [of _ i'] exI [of _ j']) (simp add: add.commute add.left_commute)
    qed
  qed
qed

lemma scan_group2:
  assumes "m \<in> set (scan pos s)"
  shows "group2_text m \<noteq> [] \<and> list_all is_digit (group2_text m) \<and> start2 m \<le> end2 m"
proof -
  obtain k i j where "match_at (drop k s) = Some (i, j)"
    "m = \<lparr>m_start = pos + k, start2 = pos + k + i, end2 = pos + k + i + j,
            m_end = pos + k + i + j + 1, group2_text = take j (drop i (drop k s))\<rparr>"
    using scan_match [OF assms] by blast
  then show ?thesis using match_at_group2 [of "drop k s" i j] by simp
qed

lemma finditer_group2:
  "m \<in> set (finditer text) \<Longrightarrow>
     group2_text m \<noteq> [] \<and> list_all is_digit (group2_text m) \<and> start2 m \<le> end2 m"
  unfolding finditer_def by (rule scan_group2)

subsection \<open>The shape of a match\<close>

lemma space_not_word: "is_space c \<Longrightarrow> \<not> is_word c"
  by (auto simp: is_space_def is_word_def Let_def)

lemma digit_is_word: "is_digit c \<Longrightarrow> is_word c"
  by (auto simp: is_digit_def is_word_def Let_def)

lemma digit_not_space: "is_digit c \<Longrightarrow> \<not> is_space c"
  using space_not_word digit_is_word by blast

lemma eq_sign_class [simp]: "\<not> is_space CHR ''=''" "\<not> is_word CHR ''=''"
  by (simp_all add: is_space_def is_word_def)

lemma comma_class [simp]: "\<not> is_digit CHR '',''"
  by (simp add: is_digit_def)

lemma run_unique:
  assumes eq: "xs @ y # r = xs' @ y' # r'"
    and "list_all P xs" "list_all P xs'" "\<not> P y" "\<not> P y'"
  shows "xs = xs' \<and> y # r = y' # r'"
proof -
  have t1: "takeWhile P (xs @ y # r) = xs"
    using assms(2,4) by (simp add: list_all_iff)
  have t2: "takeWhile P (xs' @ y' # r') = xs'"
    using assms(3,5) by (simp add: list_all_iff)
  have "xs = xs'" using t1 t2 eq by metis
  then show ?thesis using eq by simp
qed

lemma splits_as_unique:
  assumes a: "splits_as s ws w ws2 ws3 ds rest" and b: "splits_as s ws' w' ws2' ws3' ds' rest'"
  shows "ws = ws' \<and> w = w' \<and> ws2 = ws2' \<and> ws3 = ws3' \<and> ds = ds' \<and> rest = rest'"
proof -
  let ?e = "CHR ''=''" and ?c = "CHR '',''"
  have sa: "s = ws @ w @ ws2 @ ?e # ws3 @ ds @ ?c # rest"
    and a1: "list_all is_space ws" and a2: "w \<noteq> []" "list_all is_word w"
    and a3: "list_all is_space ws2" and a4: "list_all is_space ws3"
    and a5: "ds \<noteq> []" "list_all is_digit ds"
    using a by (simp_all add: splits_as_def)
  have sb: "s = ws' @ w' @ ws2' @ ?e # ws3' @ ds' @ ?c # rest'"
    and b1: "list_all is_space ws'" and b2: "w' \<noteq> []" "list_all is_word w'"
    and b3: "list_all is_space ws2'" and b4: "list_all is_space ws3'"
    and b5: "ds' \<noteq> []" "list_all is_digit ds'"
    using b by (simp_all add: splits_as_def)
  obtain x w0 where w: "w = x # w0" and x: "\<not> is_space x"
    using a2 space_not_word by (cases w) auto
  obtain x' w0' where w': "w' = x' # w0'" and x': "\<not> is_space x'"
    using b2 space_not_word by (cases w') auto
  have "ws @ x # (w0 @ ws2 @ ?e # ws3 @ ds @ ?c # rest)
      = ws' @ x' # (w0' @ ws2' @ ?e # ws3' @ ds' @ ?c # rest')"
    using sa sb by (simp add: w w')
  from run_unique [OF this a1 b1 x x']
  have 1: "ws = ws'"
    and r1: "w @ ws2 @ ?e # ws3 @ ds @ ?c # rest = w' @ ws2' @ ?e # ws3' @ ds' @ ?c # rest'"
    by (simp_all add: w w')
  obtain y t where y: "ws2 @ ?e # ws3 @ ds @ ?c # rest = y # t" and ny: "\<not> is_word y"
    using a3 space_not_word by (cases ws2) auto
  obtain y' t' where y': "ws2' @ ?e # ws3' @ ds' @ ?c # rest' = y' # t'" and ny': "\<not> is_word y'"
    using b3 space_not_word by (cases ws2') auto
  have "w @ y # t = w' @ y' # t'" using r1 y y' by simp
  from run_unique [OF this a2(2) b2(2) ny ny']
  have 2: "w = w'" and r2: "y # t = y' # t'" by simp_all
  have "ws2 @ ?e # (ws3 @ ds @ ?c # rest) = ws2' @ ?e # (ws3' @ ds' @ ?c # rest')"
    using r2 y y' by simp
  from run_unique [OF this a3 b3 eq_sign_class(1) eq_sign_class(1)]
  have 3: "ws2 = ws2'" and r3: "ws3 @ ds @ ?c # rest = ws3' @ ds' @ ?c # rest'" by simp_all
  obtain d ds0 where d: "ds = d # ds0" and nd: "\<not> is_space d"
    using a5 digit_not_space by (cases ds) auto
  obtain d' ds0' where d': "ds' = d' # ds0'" and nd': "\<not> is_space d'"
    using b5 digit_not_space by (cases ds') auto
  have "ws3 @ d # (ds0 @ ?c # rest) = ws3' @ d' # (ds0' @ ?c # rest')"
    using r3 d d' by simp
  from run_unique [OF this a4 b4 nd nd']
  have 4: "ws3 = ws3'" and r4: "ds @ ?c # rest = ds' @ ?c # rest'" by (simp_all add: d d')
  from run_unique [OF r4 a5(2) b5(2) comma_class comma_class]
  have 5: "ds = ds'" and 6: "rest = rest'" by simp_all
  show ?thesis using 1 2 3 4 5 6 by simp
qed

lemma ends_Plus_split:
  "n \<in> set (ends (Plus k) s) \<longleftrightarrow>
     (\<exists>xs r. s = xs @ r \<and> length xs = n \<and> xs \<noteq> [] \<and> list_all (in_class k) xs)"
proof
  assume "n \<in> set (ends (Plus k) s)"
  then have n: "1 \<le> n" "n \<le> length s" "list_all (in_class k) (take n s)"
    unfolding ends_Plus_iff by simp_all
  then have "s = take n s @ drop n s \<and> length (take n s) = n \<and> take n s \<noteq> []"
    by auto
  then show "\<exists>xs r. s = xs @ r \<and> length xs = n \<and> xs \<noteq> [] \<and> list_all (in_class k) xs"
    using n(3) by blast
next
  assume "\<exists>xs r. s = xs @ r \<and> length xs = n \<and> xs \<noteq> [] \<and> list_all (in_class k) xs"
  then show "n \<in> set (ends (Plus k) s)"
    unfolding ends_Plus_iff by (auto simp: Suc_le_eq)
qed

lemma ends_Star_split:
  "n \<in> set (ends (Star k) s) \<longleftrightarrow>
     (\<exists>xs r. s = xs @ r \<and> length xs = n \<and> list_all (in_class k) xs)"
proof
  assume "n \<in> set (ends (Star k) s)"
  then have n: "n \<le> length s" "list_all (in_class k) (take n s)"
    unfolding ends_Star_iff by simp_all
  then have "s = take n s @ drop n s \<and> length (take n s) = n"
    by auto
  then show "\<exists>xs r. s = xs @ r \<and> length xs = n \<and> list_all (in_class k) xs"
    using n(2) by blast
next
  assume "\<exists>xs r. s = xs @ r \<and> length xs = n \<and> list_all (in_class k) xs"
  then show "n \<in> set (ends (Star k) s)"
    unfolding ends_Star_iff by auto
qed

lemma ends_Cat_app:
  "length xs \<in> set (ends a (xs @ r)) \<Longrightarrow> j \<in> set (ends b r) \<Longrightarrow>
   length xs + j \<in> set (ends (Cat a b) (xs @ r))"
  unfolding ends_Cat_iff by (intro exI [of _ "length xs"] exI [of _ j]) simp

lemma group1_split:
  assumes "i \<in> set (ends group1 s)"
  shows "\<exists>ws w ws2 ws3 r. s = ws @ w @ ws2 @ CHR ''='' # ws3 @ r
     \<and> ws \<noteq> [] \<and> list_all is_space ws \<and> w \<noteq> [] \<and> list_all is_word w
     \<and> list_all is_space ws2 \<and> list_all is_space ws3
     \<and> i = length ws + length w + length ws2 + 1 + length ws3"
proof -
  obtain n1 i1 where i: "i = n1 + i1" and n1: "n1 \<in> set (ends (Plus Space) s)"
    and i1: "i1 \<in> set (ends (Cat (Plus Word) (Cat (Star Space) (Cat (Lit CHR ''='') (Star Space)))) (drop n1 s))"
    using assms unfolding group1_def ends_Cat_iff [of i] by blast
  obtain ws r1 where s: "s = ws @ r1" and ws: "length ws = n1" "ws \<noteq> []" "list_all is_space ws"
    using n1 unfolding ends_Plus_split by auto
  have d1: "drop n1 s = r1" using s ws(1) by simp
  obtain n2 i2 where i1': "i1 = n2 + i2" and n2: "n2 \<in> set (ends (Plus Word) r1)"
    and i2: "i2 \<in> set (ends (Cat (Star Space) (Cat (Lit CHR ''='') (Star Space))) (drop n2 r1))"
    using i1 unfolding d1 ends_Cat_iff [of i1] by blast
  obtain w r2 where r1: "r1 = w @ r2" and w: "length w = n2" "w \<noteq> []" "list_all is_word w"
    using n2 unfolding ends_Plus_split by auto
  have d2: "drop n2 r1 = r2" using r1 w(1) by simp
  obtain n3 i3 where i2': "i2 = n3 + i3" and n3: "n3 \<in> set (ends (Star Space) r2)"
    and i3: "i3 \<in> set (ends (Cat (Lit CHR ''='') (Star Space)) (drop n3 r2))"
    using i2 unfolding d2 ends_Cat_iff [of i2] by blast
  obtain ws2 r3 where r2: "r2 = ws2 @ r3" and ws2: "length ws2 = n3" "list_all is_space ws2"
    using n3 unfolding ends_Star_split by auto
  have d3: "drop n3 r2 = r3" using r2 ws2(1) by simp
  obtain n4 n5 where i3': "i3 = n4 + n5" and n4: "n4 \<in> set (ends (Lit CHR ''='') r3)"
    and n5: "n5 \<in> set (ends (Star Space) (drop n4 r3))"
    using i3 unfolding d3 ends_Cat_iff [of i3] by blast
  obtain r4 where r3: "r3 = CHR ''='' # r4" and n4': "n4 = 1"
    using n4 unfolding ends_Lit_iff by auto
  have d4: "drop n4 r3 = r4" using r3 n4' by simp
  obtain ws3 r5 where r4: "r4 = ws3 @ r5" and ws3: "length ws3 = n5" "list_all is_space ws3"
    using n5 unfolding d4 ends_Star_split by auto
  have "s = ws @ w @ ws2 @ CHR ''='' # ws3 @ r5"
    using s r1 r2 r3 r4 by simp
  moreover have "i = length ws + length w + length ws2 + 1 + length ws3"
    using i i1' i2' i3' n4' ws(1) w(1) ws2(1) ws3(1) by simp
  ultimately show ?thesis using ws w ws2 ws3 by blast
qed

lemma group1_app:
  assumes "ws \<noteq> []" "list_all is_space ws" "w \<noteq> []" "list_all is_word w"
    "list_all is_space ws2" "list_all is_space ws3"
  shows "length ws + length w + length ws2 + 1 + length ws3
           \<in> set (ends group1 (ws @ w @ ws2 @ CHR ''='' # ws3 @ r))"
proof -
  have e5: "length ws3 \<in> set (ends (Star Space) (ws3 @ r))"
    unfolding ends_Star_split using assms(6) by auto
  have "length [CHR ''=''] \<in> set (ends (Lit CHR ''='') ([CHR ''=''] @ ws3 @ r))"
    by simp
  from ends_Cat_app [OF this e5]
  have e4: "1 + length ws3 \<in> set (ends (Cat (Lit CHR ''='') (Star Space)) (CHR ''='' # ws3 @ r))"
    by simp
  have "length ws2 \<in> set (ends (Star Space) (ws2 @ CHR ''='' # ws3 @ r))"
    unfolding ends_Star_split using assms(5) by auto
  from ends_Cat_app [OF this e4]
  have e3: "length ws2 + (1 + length ws3)
     \<in> set (ends (Cat (Star Space) (Cat (Lit CHR ''='') (Star Space))) (ws2 @ CHR ''='' # ws3 @ r))" .
  have "length w \<in> set (ends (Plus Word) (w @ ws2 @ CHR ''='' # ws3 @ r))"
    unfolding ends_Plus_split using assms(3,4) by auto
  from ends_Cat_app [OF this e3]
  have e2: "length w + (length ws2 + (1 + length ws3))
     \<in> set (ends (Cat (Plus Word) (Cat (Star Space) (Cat (Lit CHR ''='') (Star Space))))
          (w @ ws2 @ CHR ''='' # ws3 @ r))" .
  have "length ws \<in> set (ends (Plus Space) (ws @ w @ ws2 @ CHR ''='' # ws3 @ r))"
    unfolding ends_Plus_split using assms(1,2) by auto
  from ends_Cat_app [OF this e2]
  have "length ws + (length w + (length ws2 + (1 + length ws3)))
     \<in> set (ends group1 (ws @ w @ ws2 @ CHR ''='' # ws3 @ r))"
    unfolding group1_def .
  then show ?thesis by (simp add: add.assoc)
qed

lemma attempts_splits:
  "(i, j) \<in> set (attempts s) \<longleftrightarrow>
     (\<exists>ws w ws2 ws3 ds rest. splits_as s ws w ws2 ws3 ds rest
        \<and> i = length ws + length w + length ws2 + 1 + length ws3 \<and> j = length ds)"
proof
  assume "(i, j) \<in> set (attempts s)"
  then have i: "i \<in> set (ends group1 s)" and j: "j \<in> set (ends group2 (drop i s))"
    and c: "\<exists>t. drop (i + j) s = CHR '','' # t"
    by (simp_all add: attempts_iff)
  obtain ws w ws2 ws3 r where s: "s = ws @ w @ ws2 @ CHR ''='' # ws3 @ r"
     and p: "ws \<noteq> []" "list_all is_space ws" "w \<noteq> []" "list_all is_word w"
       "list_all is_space ws2" "list_all is_space ws3"
     and il: "i = length ws + length w + length ws2 + 1 + length ws3"
    using group1_split [OF i] by blast
  have di: "drop i s = r" unfolding s il by simp
  obtain ds r' where r: "r = ds @ r'" and ds: "length ds = j" "ds \<noteq> []" "list_all is_digit ds"
    using j unfolding di group2_def ends_Plus_split by auto
  have "drop (i + j) s = r'"
    using di r ds(1) by (metis add.commute append_eq_conv_conj drop_drop)
  then obtain rest where r': "r' = CHR '','' # rest" using c by auto
  have "splits_as s ws w ws2 ws3 ds rest"
    unfolding splits_as_def using s r r' p ds by simp
  then show "\<exists>ws w ws2 ws3 ds rest. splits_as s ws w ws2 ws3 ds rest
        \<and> i = length ws + length w + length ws2 + 1 + length ws3 \<and> j = length ds"
    using il ds(1) by blast
next
  assume "\<exists>ws w ws2 ws3 ds rest. splits_as s ws w ws2 ws3 ds rest
        \<and> i = length ws + length w + length ws2 + 1 + length ws3 \<and> j = length ds"
  then obtain ws w ws2 ws3 ds rest where sp: "splits_as s ws w ws2 ws3 ds rest"
    and il: "i = length ws + length w + length ws2 + 1 + length ws3" and jl: "j = length ds"
    by blast
  have s: "s = ws @ w @ ws2 @ CHR ''='' # ws3 @ ds @ CHR '','' # rest"
    and p: "ws \<noteq> []" "list_all is_space ws" "w \<noteq> []" "list_all is_word w"
       "list_all is_space ws2" "list_all is_space ws3"
    and d: "ds \<noteq> []" "list_all is_digit ds"
    using sp by (simp_all add: splits_as_def)
  have 1: "i \<in> set (ends group1 s)"
    unfolding s il by (rule group1_app [OF p])
  have di: "drop i s = ds @ CHR '','' # rest" unfolding s il by simp
  have 2: "j \<in> set (ends group2 (drop i s))"
    unfolding di group2_def ends_Plus_split jl using d by auto
  have 3: "drop (i + j) s = CHR '','' # rest"
    using di jl by (metis add.commute append_eq_conv_conj drop_drop)
  show "(i, j) \<in> set (attempts s)"
    unfolding attempts_iff using 1 2 3 by blast
qed

lemma attempts_unique:
  assumes "a \<in> set (attempts s)" "b \<in> set (attempts s)"
  shows "a = b"
proof -
  obtain i j i' j' where a: "a = (i, j)" and b: "b = (i', j')"
    by (cases a, cases b) auto
  obtain ws w ws2 ws3 ds rest where 1: "splits_as s ws w ws2 ws3 ds rest"
    "i = length ws + length w + length ws2 + 1 + length ws3" "j = length ds"
    using assms(1) unfolding a attempts_splits by blast
  obtain ws' w' ws2' ws3' ds' rest' where 2: "splits_as s ws' w' ws2' ws3' ds' rest'"
    "i' = length ws' + length w' + length ws2' + 1 + length ws3'" "j' = length ds'"
    using assms(2) unfolding b attempts_splits by blast
  show ?thesis using splits_as_unique [OF 1(1) 2(1)] 1 2 a b by simp
qed

lemma match_at_iff: "match_at s = Some a \<longleftrightarrow> a \<in> set (attempts s)"
proof
  assume "match_at s = Some a"
  then show "a \<in> set (attempts s)" by (rule match_at_in_attempts)
next
  assume a: "a \<in> set (attempts s)"
  then obtain b bs where b: "attempts s = b # bs" by (cases "attempts s") auto
  then have "b = a" using attempts_unique [of b s a] a by simp
  then show "match_at s = Some a" using b by (simp add: match_at_def)
qed

lemma attempts_Nil: "attempts [] = []"
  by (simp add: attempts_def comma_def)

lemma match_at_Nil [simp]: "match_at [] = None"
  by (simp add: match_at_def attempts_Nil)

lemma scan_Nil [simp]: "scan pos [] = []"
  by (simp add: scan.simps [of pos "[]"])

lemma match_at_form:
  assumes "match_at s = Some (i, j)"
  shows "assignment_form (take (i + j + 1) s)"
proof -
  obtain ws w ws2 ws3 ds rest where sp: "splits_as s ws w ws2 ws3 ds rest"
    and il: "i = length ws + length w + length ws2 + 1 + length ws3" and jl: "j = length ds"
    using assms unfolding match_at_iff attempts_splits by blast
  have s: "s = (ws @ w @ ws2 @ CHR ''='' # ws3 @ ds @ [CHR '','']) @ rest"
    using sp by (simp add: splits_as_def)
  have "length (ws @ w @ ws2 @ CHR ''='' # ws3 @ ds @ [CHR '','']) = i + j + 1"
    using il jl by simp
  then have "take (i + j + 1) s = ws @ w @ ws2 @ CHR ''='' # ws3 @ ds @ [CHR '','']"
    using s by (metis append_eq_conv_conj)
  then have "splits_as (take (i + j + 1) s) ws w ws2 ws3 ds []"
    using sp by (simp add: splits_as_def)
  then show ?thesis unfolding assignment_form_def by blast
qed

lemma finditer_form:
  assumes "m \<in> set (finditer text)"
  shows "assignment_form (matched_text text m)"
proof -
  obtain k i j where "match_at (drop k text) = Some (i, j)"
    and "m = \<lparr>m_start = 0 + k, start2 = 0 + k + i, end2 = 0 + k + i + j,
            m_end = 0 + k + i + j + 1, group2_text = take j (drop i (drop k text))\<rparr>"
    using scan_match [of m 0 "text"] assms unfolding finditer_def by blast
  then show ?thesis
    using match_at_form [of "drop k text" i j] by (simp add: matched_text_def)
qed

lemma form_finditer:
  assumes "assignment_form a"
  shows "\<exists>m. finditer a = [m] \<and> m_start m = 0 \<and> m_end m = length a"
proof -
  obtain ws w ws2 ws3 ds where sp: "splits_as a ws w ws2 ws3 ds []"
    using assms unfolding assignment_form_def by blast
  define i where "i = length ws + length w + length ws2 + 1 + length ws3"
  define j where "j = length ds"
  have m: "match_at a = Some (i, j)"
    unfolding match_at_iff attempts_splits using sp i_def j_def by blast
  have len: "length a = i + j + 1"
    using sp by (simp add: splits_as_def i_def j_def)
  have "finditer a = [\<lparr>m_start = 0, start2 = 0 + i, end2 = 0 + i + j, m_end = 0 + i + j + 1,
           group2_text = take j (drop i a)\<rparr>]"
    unfolding finditer_def by (subst scan.simps) (simp add: m len)
  then show ?thesis using len by simp
qed


lemma match_at_length:
  assumes "match_at s = Some (i, j)"
  shows "i + j + 1 \<le> length s"
proof -
  have "\<exists>t. drop (i + j) s = CHR '','' # t"
    using match_at_in_attempts [OF assms] by (simp add: attempts_iff)
  then have "i + j < length s" by (cases "i + j < length s") auto
  then show ?thesis by simp
qed

lemma splits_finditer:
  assumes sp: "splits_as a ws w ws2 ws3 ds []"
  shows "finditer a =
    [\<lparr>m_start = 0, start2 = length ws + length w + length ws2 + 1 + length ws3,
      end2 = length ws + length w + length ws2 + 1 + length ws3 + length ds,
      m_end = length a, group2_text = ds\<rparr>]"
proof -
  define i where "i = length ws + length w + length ws2 + 1 + length ws3"
  define j where "j = length ds"
  have m: "match_at a = Some (i, j)"
    unfolding match_at_iff attempts_splits using sp i_def j_def by blast
  have a: "a = (ws @ w @ ws2 @ CHR ''='' # ws3) @ ds @ [CHR '','']"
    using sp by (simp add: splits_as_def)
  have len: "length a = i + j + 1"
    using a by (simp add: i_def j_def)
  have "length (ws @ w @ ws2 @ CHR ''='' # ws3) = i" by (simp add: i_def)
  then have "drop i a = ds @ [CHR '','']" using a by (metis append_eq_conv_conj)
  then have g: "take j (drop i a) = ds" by (simp add: j_def)
  have "finditer a = [\<lparr>m_start = 0, start2 = 0 + i, end2 = 0 + i + j, m_end = 0 + i + j + 1,
           group2_text = take j (drop i a)\<rparr>]"
    unfolding finditer_def by (subst scan.simps) (simp add: m len)
  then show ?thesis using len g by (simp add: i_def j_def)
qed

lemma splits_as_append:
  "splits_as t ws w ws2 ws3 ds [] \<Longrightarrow> splits_as (t @ r) ws w ws2 ws3 ds r"
  by (simp add: splits_as_def)

lemma form_at_iff:
  "k + n \<le> length text \<and> assignment_form (take n (drop k text))
     \<longleftrightarrow> (\<exists>i j. match_at (drop k text) = Some (i, j) \<and> n = i + j + 1)"
proof
  assume h: "k + n \<le> length text \<and> assignment_form (take n (drop k text))"
  let ?s = "drop k text"
  have n: "n \<le> length ?s" using h by auto
  obtain ws w ws2 ws3 ds where sp: "splits_as (take n ?s) ws w ws2 ws3 ds []"
    using h unfolding assignment_form_def by blast
  have "splits_as (take n ?s @ drop n ?s) ws w ws2 ws3 ds (drop n ?s)"
    using sp by (rule splits_as_append)
  then have "splits_as ?s ws w ws2 ws3 ds (drop n ?s)"
    unfolding append_take_drop_id .
  then have "match_at ?s =
      Some (length ws + length w + length ws2 + 1 + length ws3, length ds)"
    unfolding match_at_iff attempts_splits by blast
  moreover have "length (take n ?s) = length ws + length w + length ws2 + 1 + length ws3 + length ds + 1"
    using sp by (simp add: splits_as_def)
  then have "n = length ws + length w + length ws2 + 1 + length ws3 + length ds + 1"
    using n by simp
  ultimately show "\<exists>i j. match_at ?s = Some (i, j) \<and> n = i + j + 1" by blast
next
  assume "\<exists>i j. match_at (drop k text) = Some (i, j) \<and> n = i + j + 1"
  then obtain i j where m: "match_at (drop k text) = Some (i, j)" and n: "n = i + j + 1" by blast
  have "n \<le> length (drop k text)" using match_at_length [OF m] n by simp
  then have "k + n \<le> length text" using n by simp
  then show "k + n \<le> length text \<and> assignment_form (take n (drop k text))"
    using match_at_form [OF m] n by simp
qed

lemma scan_bounds:
  "m \<in> set (scan pos s) \<Longrightarrow> pos \<le> m_start m \<and> m_start m < m_end m"
  using scan_match [of m pos s] by auto

lemma scan_ordered:
  "sorted_wrt (\<lambda>a b. m_end a \<le> m_start b) (scan pos s)"
proof (induction pos s rule: scan.induct)
  case (1 pos s)
  show ?case
  proof (cases "match_at s")
    case None
    then show ?thesis using "1.IH"(1)
      by (cases s) (simp_all add: scan.simps [of pos "_ # _"])
  next
    case (Some a)
    obtain i j where a: "a = (i, j)" by (cases a)
    have "\<And>m. m \<in> set (scan (pos + i + j + 1) (drop (i + j + 1) s)) \<Longrightarrow> pos + i + j + 1 \<le> m_start m"
      using scan_bounds by blast
    then show ?thesis
      using "1.IH"(2) [OF Some a [symmetric]] Some a
      by (simp add: scan.simps [of pos s])
  qed
qed

lemma sorted_wrt_cases:
  "sorted_wrt P xs \<Longrightarrow> x \<in> set xs \<Longrightarrow> y \<in> set xs \<Longrightarrow> x = y \<or> P x y \<or> P y x"
  by (induction xs) auto

lemma scan_no_overlap:
  assumes "m \<in> set (scan pos s)" "m' \<in> set (scan pos s)"
  shows "\<not> (m_start m' < m_start m \<and> m_start m < m_end m')"
proof -
  have "m' = m \<or> m_end m' \<le> m_start m \<or> m_end m \<le> m_start m'"
    using sorted_wrt_cases [OF scan_ordered assms(2) assms(1)] by blast
  then show ?thesis using scan_bounds [OF assms(1)] by auto
qed

lemma scan_complete:
  "k \<le> length s \<Longrightarrow> match_at (drop k s) = Some (i, j) \<Longrightarrow>
   (\<exists>m \<in> set (scan pos s). m_start m = pos + k \<and> m_end m = pos + k + i + j + 1)
   \<or> (\<exists>m \<in> set (scan pos s). m_start m < pos + k \<and> pos + k < m_end m)"
proof (induction pos s arbitrary: k rule: scan.induct)
  case (1 pos s)
  show ?case
  proof (cases "match_at s")
    case None
    show ?thesis
    proof (cases s)
      case Nil
      with "1.prems" show ?thesis by simp
    next
      case (Cons c t)
      have k0: "k \<noteq> 0" using "1.prems"(2) None by (cases k) auto
      then obtain k' where k': "k = Suc k'" by (cases k) auto
      have "k' \<le> length t" "match_at (drop k' t) = Some (i, j)"
        using "1.prems" Cons k' by simp_all
      from "1.IH"(1) [OF None Cons this]
      show ?thesis using None Cons k' by (simp add: scan.simps [of pos "c # t"])
    qed
  next
    case (Some a)
    obtain i0 j0 where a: "a = (i0, j0)" by (cases a)
    let ?e = "i0 + j0 + 1"
    let ?m0 = "\<lparr>m_start = pos, start2 = pos + i0, end2 = pos + i0 + j0, m_end = pos + i0 + j0 + 1,
                 group2_text = take j0 (drop i0 s)\<rparr>"
    have sc: "scan pos s = ?m0 # scan (pos + i0 + j0 + 1) (drop ?e s)"
      using Some a by (simp add: scan.simps [of pos s])
    consider "k = 0" | "0 < k" "k < ?e" | "?e \<le> k" by linarith
    then show ?thesis
    proof cases
      case 1
      then have "(i, j) = (i0, j0)" using "1.prems"(2) Some a by simp
      then show ?thesis using 1 sc by simp
    next
      case 2
      then have "m_start ?m0 < pos + k \<and> pos + k < m_end ?m0" by simp
      moreover have "?m0 \<in> set (scan pos s)" unfolding sc by (rule list.set_intros(1))
      ultimately show ?thesis by blast
    next
      case 3
      then obtain k' where k': "k = ?e + k'" using le_Suc_ex by blast
      have "k' \<le> length (drop ?e s)" using "1.prems"(1) k' by simp
      moreover have "match_at (drop k' (drop ?e s)) = Some (i, j)"
        using "1.prems"(2) k' by (simp add: add.commute)
      ultimately have "(\<exists>m \<in> set (scan (pos + i0 + j0 + 1) (drop ?e s)).
             m_start m = pos + i0 + j0 + 1 + k' \<and> m_end m = pos + i0 + j0 + 1 + k' + i + j + 1)
         \<or> (\<exists>m \<in> set (scan (pos + i0 + j0 + 1) (drop ?e s)).
             m_start m < pos + i0 + j0 + 1 + k' \<and> pos + i0 + j0 + 1 + k' < m_end m)"
        using "1.IH"(2) [OF Some a [symmetric], of k'] by simp
      then show ?thesis using sc k' by (auto simp: add.assoc)
    qed
  qed
qed

lemma finditer_reported_iff:
  "(\<exists>m \<in> set (finditer text). m_start m = k \<and> m_end m = k + n)
     \<longleftrightarrow> (k + n \<le> length text \<and> assignment_form (take n (drop k text))
          \<and> \<not> (\<exists>m' \<in> set (finditer text). m_start m' < k \<and> k < m_end m'))"
proof
  assume "\<exists>m \<in> set (finditer text). m_start m = k \<and> m_end m = k + n"
  then obtain m where m: "m \<in> set (scan 0 text)" "m_start m = k" "m_end m = k + n"
    unfolding finditer_def by blast
  obtain k' i j where "match_at (drop k' text) = Some (i, j)"
    and "m = \<lparr>m_start = 0 + k', start2 = 0 + k' + i, end2 = 0 + k' + i + j,
            m_end = 0 + k' + i + j + 1, group2_text = take j (drop i (drop k' text))\<rparr>"
    using scan_match [OF m(1)] by blast
  then have "match_at (drop k text) = Some (i, j)" "n = i + j + 1"
    using m(2,3) by auto
  then have "k + n \<le> length text \<and> assignment_form (take n (drop k text))"
    using form_at_iff [of k n "text"] by blast
  moreover have "\<not> (\<exists>m' \<in> set (finditer text). m_start m' < k \<and> k < m_end m')"
    using scan_no_overlap [OF m(1)] m(2) unfolding finditer_def by blast
  ultimately show "k + n \<le> length text \<and> assignment_form (take n (drop k text))
          \<and> \<not> (\<exists>m' \<in> set (finditer text). m_start m' < k \<and> k < m_end m')"
    by blast
next
  assume h: "k + n \<le> length text \<and> assignment_form (take n (drop k text))
          \<and> \<not> (\<exists>m' \<in> set (finditer text). m_start m' < k \<and> k < m_end m')"
  then obtain i j where m: "match_at (drop k text) = Some (i, j)" and n: "n = i + j + 1"
    using form_at_iff [of k n "text"] by blast
  have "k \<le> length text" using h by simp
  from scan_complete [OF this m, of 0]
  show "\<exists>m \<in> set (finditer text). m_start m = k \<and> m_end m = k + n"
    using h n unfolding finditer_def by auto
qed

text \<open>
  C2, amended: a substring of the text is reported as a match exactly when it is made of
  whitespace (at least one character), word characters (at least one), whitespace (maybe
  none), the equals sign, whitespace (maybe none), digits (at least one) and a comma, and
  does not begin inside a match that begins before it (matches are found from left to right
  and do not overlap). Every match has that shape, and a string of that shape, scanned on
  its own, is one match from its first to its last character. Since the leading whitespace
  is required, an assignment at the very start of the text is not matched.
\<close>

theorem pattern_shape:
  "(\<forall>k n. (\<exists>m \<in> set (finditer text). m_start m = k \<and> m_end m = k + n)
       \<longleftrightarrow> (k + n \<le> length text \<and> assignment_form (take n (drop k text))
            \<and> \<not> (\<exists>m' \<in> set (finditer text). m_start m' < k \<and> k < m_end m')))
   \<and> (\<forall>m \<in> set (finditer text). assignment_form (matched_text text m))
   \<and> (assignment_form a \<longleftrightarrow> (\<exists>m. finditer a = [m] \<and> m_start m = 0 \<and> m_end m = length a))"
proof (intro conjI allI ballI)
  fix k n
  show "(\<exists>m \<in> set (finditer text). m_start m = k \<and> m_end m = k + n)
       \<longleftrightarrow> (k + n \<le> length text \<and> assignment_form (take n (drop k text))
            \<and> \<not> (\<exists>m' \<in> set (finditer text). m_start m' < k \<and> k < m_end m'))"
    by (rule finditer_reported_iff)
next
  fix m assume "m \<in> set (finditer text)"
  then show "assignment_form (matched_text text m)" by (rule finditer_form)
next
  show "assignment_form a \<longleftrightarrow> (\<exists>m. finditer a = [m] \<and> m_start m = 0 \<and> m_end m = length a)"
  proof
    assume "assignment_form a"
    then show "\<exists>m. finditer a = [m] \<and> m_start m = 0 \<and> m_end m = length a" by (rule form_finditer)
  next
    assume "\<exists>m. finditer a = [m] \<and> m_start m = 0 \<and> m_end m = length a"
    then obtain m where m: "finditer a = [m]" "m_start m = 0" "m_end m = length a" by blast
    then have "assignment_form (matched_text a m)"
      using finditer_form [of m a] by simp
    then show "assignment_form a" using m by (simp add: matched_text_def)
  qed
qed

text \<open>
  C2, as stated, fails on both sides: \<open>A = 1,\<close> at the start of the text has the shape the
  claim gives and is not matched; \<open>A= 1,\<close> after a blank has no whitespace before the
  equals sign and is matched.
\<close>

theorem pattern_shape_counterexample:
  "finditer ''A = 1,'' = []
   \<and> finditer '' A= 1,'' = [\<lparr>m_start = 0, start2 = 4, end2 = 5, m_end = 6, group2_text = ''1''\<rparr>]"
  by code_simp

theorem pattern_shape_witness:
  "finditer ''x a=1, b=2,'' =
     [\<lparr>m_start = 1, start2 = 4, end2 = 5, m_end = 6, group2_text = ''1''\<rparr>,
      \<lparr>m_start = 6, start2 = 9, end2 = 10, m_end = 11, group2_text = ''2''\<rparr>]
   \<and> assignment_form (take 5 (drop 1 ''x a=1, b=2,''))
   \<and> assignment_form (take 5 (drop 6 ''x a=1, b=2,''))
   \<and> \<not> assignment_form (take 6 (drop 0 ''x a=1, b=2,''))
   \<and> assignment_form '' A= 1,''
   \<and> \<not> assignment_form ''A = 1,''"
proof -
  let ?t = "''x a=1, b=2,''"
  have f: "finditer ?t =
     [\<lparr>m_start = 1, start2 = 4, end2 = 5, m_end = 6, group2_text = ''1''\<rparr>,
      \<lparr>m_start = 6, start2 = 9, end2 = 10, m_end = 11, group2_text = ''2''\<rparr>]"
    by code_simp
  note sh = pattern_shape [of ?t "[]", THEN conjunct1, rule_format]
  have 1: "assignment_form (take 5 (drop 1 ?t))"
    using sh [of 1 5] unfolding f by simp
  have 2: "assignment_form (take 5 (drop 6 ?t))"
    using sh [of 6 5] unfolding f by simp
  have 3: "\<not> assignment_form (take 6 (drop 0 ?t))"
    using sh [of 0 6] unfolding f by simp
  have a: "finditer '' A= 1,'' = [\<lparr>m_start = 0, start2 = 4, end2 = 5, m_end = 6, group2_text = ''1''\<rparr>]"
    by code_simp
  have b: "finditer ''A = 1,'' = []" by code_simp
  have 4: "assignment_form '' A= 1,''"
    using pattern_shape [of "'' A= 1,''" "'' A= 1,''"] a by simp
  have 5: "\<not> assignment_form ''A = 1,''"
    using pattern_shape [of "''A = 1,''" "''A = 1,''"] b by simp
  show ?thesis using f 1 2 3 4 5 by blast
qed

subsection \<open>The bookkeeping of the loop\<close>

lemma py_int_Inr:
  "py_int s = Inr code \<longleftrightarrow>
     s \<noteq> [] \<and> list_all is_digit s \<and> int (length s) \<le> max_str_digits \<and> code = digits_value s"
  by (auto simp: py_int_def)

lemma loop_body_cases:
  assumes "loop_body m st = Inr st'"
  obtains code where "py_int (group2_text m) = Inr code"
proof (cases "py_int (group2_text m)")
  case (Inl e)
  with assms show ?thesis by (simp add: loop_body_def)
next
  case (Inr code)
  then show ?thesis by (rule that)
qed

lemma loop_body_below:
  "py_int (group2_text m) = Inr code \<Longrightarrow> code < 2134 \<Longrightarrow> loop_body m st = Inr st"
  by (simp add: loop_body_def)

lemma loop_body_new:
  "py_int (group2_text m) = Inr code \<Longrightarrow> 2134 \<le> code \<Longrightarrow> seen_codes st code = None \<Longrightarrow>
   loop_body m st =
     Inr (if code \<ge> next_code st
          then st\<lparr>seen_codes := (seen_codes st)(code \<mapsto> True), next_code := code + 1\<rparr>
          else st\<lparr>seen_codes := (seen_codes st)(code \<mapsto> True)\<rparr>)"
  by (simp add: loop_body_def Let_def)

lemma loop_body_dup:
  "py_int (group2_text m) = Inr code \<Longrightarrow> 2134 \<le> code \<Longrightarrow> seen_codes st code \<noteq> None \<Longrightarrow>
   loop_body m st =
     (case str (next_code st) of
        Inl e \<Rightarrow> Inl e
      | Inr new \<Rightarrow> Inr (st\<lparr>content := splice m new (content st), next_code := next_code st + 1\<rparr>))"
  by (simp add: loop_body_def)

lemma loop_body_step:
  assumes lb: "loop_body m st = Inr st'"
    and inv: "\<forall>c. seen_codes st c \<noteq> None \<longrightarrow> c < next_code st"
  shows "(\<forall>c. seen_codes st' c \<noteq> None \<longrightarrow> c < next_code st')
       \<and> next_code st \<le> next_code st'
       \<and> (is_duplicate m st \<longrightarrow> next_code st' = next_code st + 1)
       \<and> (\<forall>c. seen_codes st c \<noteq> None \<longrightarrow> seen_codes st' c \<noteq> None)"
proof -
  obtain code where c: "py_int (group2_text m) = Inr code"
    using lb by (rule loop_body_cases)
  have d: "is_duplicate m st \<longleftrightarrow> code \<ge> 2134 \<and> seen_codes st code \<noteq> None"
    by (simp add: is_duplicate_def c)
  consider "code < 2134" | "2134 \<le> code" "seen_codes st code = None"
    | "2134 \<le> code" "seen_codes st code \<noteq> None" by linarith
  then show ?thesis
  proof cases
    case 1
    then have "st' = st" using lb loop_body_below [OF c] by simp
    then show ?thesis using inv d 1 by simp
  next
    case 2
    then have "st' = (if code \<ge> next_code st
          then st\<lparr>seen_codes := (seen_codes st)(code \<mapsto> True), next_code := code + 1\<rparr>
          else st\<lparr>seen_codes := (seen_codes st)(code \<mapsto> True)\<rparr>)"
      using lb loop_body_new [OF c] by simp
    then show ?thesis using inv d 2 by (auto simp: less_Suc_eq dest: spec [of _ code])
  next
    case 3
    then obtain new where "st' = st\<lparr>content := splice m new (content st), next_code := next_code st + 1\<rparr>"
      using lb loop_body_dup [OF c] by (auto split: sum.splits)
    then show ?thesis using inv d 3 by auto
  qed
qed

lemma loop_body_seen:
  assumes lb: "loop_body m st = Inr st'" and q: "2134 \<le> digits_value (group2_text m)"
  shows "seen_codes st' (digits_value (group2_text m)) \<noteq> None"
proof -
  obtain code where c: "py_int (group2_text m) = Inr code"
    using lb by (rule loop_body_cases)
  then have v: "code = digits_value (group2_text m)" by (simp add: py_int_Inr)
  show ?thesis
  proof (cases "seen_codes st code = None")
    case True
    then show ?thesis using lb loop_body_new [OF c _ True] q v by (auto split: if_splits)
  next
    case False
    then show ?thesis using lb loop_body_dup [OF c _ False] q v by (auto split: sum.splits)
  qed
qed

lemma replacements_bounds:
  "\<forall>c. seen_codes st c \<noteq> None \<longrightarrow> c < next_code st \<Longrightarrow>
   (seen, r) \<in> set (replacements ms st) \<Longrightarrow> next_code st \<le> r \<and> seen r = None"
proof (induction ms arbitrary: st)
  case Nil
  then show ?case by simp
next
  case (Cons m ms)
  show ?case
  proof (cases "loop_body m st")
    case (Inl e)
    with Cons.prems show ?thesis by simp
  next
    case (Inr st')
    note step = loop_body_step [OF Inr Cons.prems(1)]
    from Cons.prems(2) Inr consider
      "is_duplicate m st" "(seen, r) = (seen_codes st, next_code st)"
      | "(seen, r) \<in> set (replacements ms st')"
      by (auto split: if_splits)
    then show ?thesis
    proof cases
      case 1
      then show ?thesis using Cons.prems(1) by auto
    next
      case 2
      then have "next_code st' \<le> r \<and> seen r = None"
        using Cons.IH [of st'] step by blast
      then show ?thesis using step by auto
    qed
  qed
qed

lemma replacements_increasing:
  "\<forall>c. seen_codes st c \<noteq> None \<longrightarrow> c < next_code st \<Longrightarrow>
   sorted_wrt (<) (map snd (replacements ms st))"
proof (induction ms arbitrary: st)
  case Nil
  then show ?case by simp
next
  case (Cons m ms)
  show ?case
  proof (cases "loop_body m st")
    case (Inl e)
    then show ?thesis by simp
  next
    case (Inr st')
    note step = loop_body_step [OF Inr Cons.prems]
    have rest: "sorted_wrt (<) (map snd (replacements ms st'))"
      using Cons.IH [of st'] step by blast
    show ?thesis
    proof (cases "is_duplicate m st")
      case False
      then show ?thesis using Inr rest by simp
    next
      case True
      have "\<And>p. p \<in> set (replacements ms st') \<Longrightarrow> next_code st < snd p"
      proof -
        fix p assume "p \<in> set (replacements ms st')"
        then have "next_code st' \<le> snd p"
          using replacements_bounds [of st' "fst p" "snd p" ms] step by simp
        then show "next_code st < snd p" using step True by simp
      qed
      then show ?thesis using Inr rest True by auto
    qed
  qed
qed

lemma for_loop_append:
  "for_loop (ms @ ns) st = (case for_loop ms st of Inl e \<Rightarrow> Inl e | Inr st' \<Rightarrow> for_loop ns st')"
  by (induction ms arbitrary: st) (auto split: sum.splits)

lemma for_loop_inv:
  "for_loop ms st = Inr st' \<Longrightarrow>
   \<forall>c. seen_codes st c \<noteq> None \<longrightarrow> c < next_code st \<Longrightarrow>
   (\<forall>c. seen_codes st' c \<noteq> None \<longrightarrow> c < next_code st')
   \<and> next_code st \<le> next_code st'
   \<and> (\<forall>c. seen_codes st c \<noteq> None \<longrightarrow> seen_codes st' c \<noteq> None)
   \<and> (\<forall>p \<in> set (replacements ms st). snd p < next_code st')"
proof (induction ms arbitrary: st)
  case Nil
  then show ?case by simp
next
  case (Cons m ms)
  obtain st1 where s1: "loop_body m st = Inr st1" and r: "for_loop ms st1 = Inr st'"
    using Cons.prems(1) by (auto split: sum.splits)
  note step = loop_body_step [OF s1 Cons.prems(2)]
  have ih: "(\<forall>c. seen_codes st' c \<noteq> None \<longrightarrow> c < next_code st')
   \<and> next_code st1 \<le> next_code st'
   \<and> (\<forall>c. seen_codes st1 c \<noteq> None \<longrightarrow> seen_codes st' c \<noteq> None)
   \<and> (\<forall>p \<in> set (replacements ms st1). snd p < next_code st')"
    using Cons.IH [OF r] step by blast
  have "is_duplicate m st \<Longrightarrow> next_code st < next_code st'"
    using step ih by simp
  then show ?case using s1 step ih by auto
qed

lemma matched_codes_simps [simp]:
  "matched_codes [] = []"
  "matched_codes (m # ms) = digits_value (group2_text m) # matched_codes ms"
  by (simp_all add: matched_codes_def)

lemma qualifying_simps [simp]:
  "qualifying [] = []"
  "qualifying (c # cs) = (if c \<ge> 2134 then c # qualifying cs else qualifying cs)"
  by (simp_all add: qualifying_def)

lemma for_loop_seen:
  "for_loop ms st = Inr st' \<Longrightarrow> c \<in> set (qualifying (matched_codes ms)) \<Longrightarrow>
   \<forall>c. seen_codes st c \<noteq> None \<longrightarrow> c < next_code st \<Longrightarrow>
   seen_codes st' c \<noteq> None"
proof (induction ms arbitrary: st)
  case Nil
  then show ?case by simp
next
  case (Cons m ms)
  obtain st1 where s1: "loop_body m st = Inr st1" and r: "for_loop ms st1 = Inr st'"
    using Cons.prems(1) by (auto split: sum.splits)
  note step = loop_body_step [OF s1 Cons.prems(3)]
  have inv1: "\<forall>c. seen_codes st1 c \<noteq> None \<longrightarrow> c < next_code st1" using step by blast
  from Cons.prems(2) consider "c = digits_value (group2_text m)" "c \<ge> 2134"
    | "c \<in> set (qualifying (matched_codes ms))"
    by (auto split: if_splits)
  then show ?case
  proof cases
    case 1
    have "seen_codes st1 c \<noteq> None"
      using loop_body_seen [OF s1] 1 by simp
    then show ?thesis using for_loop_inv [OF r inv1] by blast
  next
    case 2
    then show ?thesis using Cons.IH [OF r _ inv1] by blast
  qed
qed

lemma init_state_inv:
  "\<forall>c. seen_codes (init_state text) c \<noteq> None \<longrightarrow> c < next_code (init_state text)"
  by (simp add: init_state_def)

subsection \<open>Within the limits of the conversions\<close>

lemma str_digits_length:
  "0 \<le> n \<Longrightarrow> n < 10 ^ k \<Longrightarrow> 0 < k \<Longrightarrow> length (str_digits n) \<le> k"
proof (induction n arbitrary: k rule: str_digits.induct)
  case (1 n)
  show ?case
  proof (cases "n < 10")
    case True
    then show ?thesis using "1.prems"(3) by (simp add: str_digits.simps [of n])
  next
    case False
    obtain k' where k: "k = Suc k'" using "1.prems"(3) by (cases k) auto
    have "k' \<noteq> 0" using False "1.prems"(2) k by (cases k') auto
    then have k'pos: "0 < k'" by simp
    have "n < 10 * 10 ^ k'" using "1.prems"(2) k by simp
    then have "n div 10 < 10 ^ k'" by linarith
    moreover have "0 \<le> n div 10" using "1.prems"(1) by simp
    ultimately have "length (str_digits (n div 10)) \<le> k'"
      using "1.IH" [OF False _ _ k'pos] by simp
    then show ?thesis using False k by (simp add: str_digits.simps [of n])
  qed
qed

lemma str_within:
  assumes "0 \<le> n" "n < int_limit"
  shows "\<exists>new. str n = Inr new"
proof -
  have 2: "n < 10 ^ nat max_str_digits" using assms(2) unfolding int_limit_def .
  have 3: "0 < nat max_str_digits" by (simp add: max_str_digits_def)
  have "length (str_digits n) \<le> nat max_str_digits"
    using assms(1) 2 3 by (rule str_digits_length)
  then have "int (length (str_digits n)) \<le> max_str_digits"
    by (simp add: max_str_digits_def)
  then show ?thesis using assms(1) by (simp add: str_def Let_def)
qed

lemma small_below_limit: "n < 10000 \<Longrightarrow> n < int_limit"
proof -
  have "(10::int) ^ 4 \<le> 10 ^ nat max_str_digits"
    by (rule power_increasing) (simp_all add: max_str_digits_def)
  then have "(10000::int) \<le> int_limit" by (simp add: int_limit_def)
  then show "n < 10000 \<Longrightarrow> n < int_limit" by simp
qed

lemma for_loop_within:
  "(\<And>m. m \<in> set ms \<Longrightarrow> group2_text m \<noteq> [] \<and> list_all is_digit (group2_text m)
        \<and> int (length (group2_text m)) \<le> max_str_digits
        \<and> digits_value (group2_text m) + int (length ms) < int_limit) \<Longrightarrow>
   0 \<le> next_code st \<Longrightarrow> next_code st + int (length ms) < int_limit \<Longrightarrow>
   \<exists>st'. for_loop ms st = Inr st' \<and> 0 \<le> next_code st' \<and> next_code st' < int_limit"
proof (induction ms arbitrary: st)
  case Nil
  then show ?case by simp
next
  case (Cons m ms)
  let ?code = "digits_value (group2_text m)"
  have m: "group2_text m \<noteq> []" "list_all is_digit (group2_text m)"
    "int (length (group2_text m)) \<le> max_str_digits"
    "?code + int (length (m # ms)) < int_limit"
    using Cons.prems(1) [of m] by simp_all
  have c: "py_int (group2_text m) = Inr ?code"
    using m by (simp add: py_int_Inr)
  have tail: "\<And>x. x \<in> set ms \<Longrightarrow> group2_text x \<noteq> [] \<and> list_all is_digit (group2_text x)
        \<and> int (length (group2_text x)) \<le> max_str_digits
        \<and> digits_value (group2_text x) + int (length ms) < int_limit"
    using Cons.prems(1) by fastforce
  have "\<exists>st1. loop_body m st = Inr st1 \<and> 0 \<le> next_code st1
          \<and> next_code st1 + int (length ms) < int_limit"
  proof -
    consider "?code < 2134" | "2134 \<le> ?code" "seen_codes st ?code = None"
      | "2134 \<le> ?code" "seen_codes st ?code \<noteq> None" by linarith
    then show ?thesis
    proof cases
      case 1
      then show ?thesis using loop_body_below [OF c] Cons.prems(2,3) by simp
    next
      case 2
      then show ?thesis using loop_body_new [OF c] Cons.prems(2,3) m(4) by simp
    next
      case 3
      have "next_code st < int_limit" using Cons.prems(3) by simp
      then obtain new where "str (next_code st) = Inr new"
        using str_within [OF Cons.prems(2)] by blast
      then show ?thesis using loop_body_dup [OF c 3] Cons.prems(2,3) by simp
    qed
  qed
  then obtain st1 where s1: "loop_body m st = Inr st1" "0 \<le> next_code st1"
    "next_code st1 + int (length ms) < int_limit" by blast
  obtain st' where "for_loop ms st1 = Inr st'" "0 \<le> next_code st'" "next_code st' < int_limit"
    using Cons.IH [OF tail s1(2,3)] by blast
  then show ?case using s1(1) by simp
qed

lemma within_limits_run:
  assumes "within_limits text"
  shows "\<exists>st. for_loop (finditer text) (init_state text) = Inr st
     \<and> fix_error_codes text
         = \<lparr>file_text = content st, printed = Some (next_code st), raised = None\<rparr>"
proof -
  have lim: "2135 + int (length (finditer text)) < int_limit"
    and each: "\<And>m. m \<in> set (finditer text) \<Longrightarrow>
       int (length (group2_text m)) \<le> max_str_digits
       \<and> digits_value (group2_text m) + int (length (finditer text)) < int_limit"
    using assms by (auto simp: within_limits_def list_all_iff)
  have "\<exists>st'. for_loop (finditer text) (init_state text) = Inr st'
          \<and> 0 \<le> next_code st' \<and> next_code st' < int_limit"
    using each finditer_group2 lim
    by (intro for_loop_within) (simp_all add: init_state_def)
  then obtain st where st: "for_loop (finditer text) (init_state text) = Inr st"
    "0 \<le> next_code st" "next_code st < int_limit" by blast
  obtain new where "str (next_code st) = Inr new"
    using str_within [OF st(2,3)] by blast
  then have "fix_error_codes text
         = \<lparr>file_text = content st, printed = Some (next_code st), raised = None\<rparr>"
    using st(1) by (simp add: fix_error_codes_def finish_def)
  then show ?thesis using st(1) by blast
qed

lemma for_loop_prefix:
  assumes "for_loop ms st = Inr st'"
  shows "\<exists>st1. for_loop (take k ms) st = Inr st1"
proof -
  have "for_loop (take k ms @ drop k ms) st = Inr st'" using assms by simp
  then show ?thesis unfolding for_loop_append by (auto split: sum.splits)
qed

lemma printed_Some:
  "printed (fix_error_codes text) = Some n \<longleftrightarrow>
     (\<exists>st. for_loop (finditer text) (init_state text) = Inr st \<and> next_code st = n
           \<and> fix_error_codes text = \<lparr>file_text = content st, printed = Some n, raised = None\<rparr>)"
  by (auto simp: fix_error_codes_def finish_def split: sum.splits)

lemma file_text_cases:
  "file_text (fix_error_codes text) =
     (case for_loop (finditer text) (init_state text) of Inl e \<Rightarrow> text | Inr st \<Rightarrow> content st)"
  by (simp add: fix_error_codes_def finish_def split: sum.splits)

lemma within_limits_small:
  assumes "2135 + int (length (finditer text)) < 10000"
    and "list_all (\<lambda>m. int (length (group2_text m)) \<le> 4300
                     \<and> digits_value (group2_text m) + int (length (finditer text)) < 10000)
          (finditer text)"
  shows "within_limits text"
  using assms small_below_limit
  unfolding within_limits_def list_all_iff by (auto simp: max_str_digits_def)

lemma list_all_replicate: "P x \<Longrightarrow> list_all P (replicate n x)"
  by (induction n) auto

lemma long_code_raises:
  assumes "4300 < n"
  shows "fix_error_codes ('' a='' @ replicate n CHR ''9'' @ '','')
     = \<lparr>file_text = '' a='' @ replicate n CHR ''9'' @ '','', printed = None,
        raised = Some ValueError\<rparr>"
proof -
  let ?ds = "replicate n CHR ''9''"
  let ?t = "'' a='' @ ?ds @ '',''"
  have d: "list_all is_digit ?ds"
    by (rule list_all_replicate) (simp add: is_digit_def)
  have "splits_as ?t '' '' ''a'' [] [] ?ds []"
    using d assms by (simp add: splits_as_def is_space_def is_word_def)
  from splits_finditer [OF this]
  obtain m where f: "finditer ?t = [m]" and g: "group2_text m = ?ds" by simp
  have "py_int ?ds = Inl ValueError"
    using assms by (simp add: py_int_def max_str_digits_def)
  then have "loop_body m (init_state ?t) = Inl ValueError"
    using g by (simp add: loop_body_def)
  then have "for_loop (finditer ?t) (init_state ?t) = Inl ValueError"
    using f by simp
  then show ?thesis by (simp add: fix_error_codes_def finish_def)
qed

text \<open>
  C8, amended: for every text the scan ends, every \<open>match.group(2)\<close> is a non-empty string of
  digits, \<open>match.start(2)\<close> is not behind \<open>match.end(2)\<close> (and the slices clip like Python's),
  and \<open>int\<close> succeeds on every group of at most 4300 digits. The run raises no exception and
  prints its status line when the text is within the limits of the conversions: no matched
  digit string of more than 4300 characters, and codes that stay below \<open>10 ^ 4300\<close> when
  counted up once for each match.
\<close>

theorem raises_only_beyond_limits:
  "(\<forall>m \<in> set (finditer text).
      group2_text m \<noteq> [] \<and> list_all is_digit (group2_text m) \<and> start2 m \<le> end2 m
      \<and> (int (length (group2_text m)) \<le> max_str_digits
           \<longrightarrow> py_int (group2_text m) = Inr (digits_value (group2_text m))))
   \<and> (within_limits text
        \<longrightarrow> raised (fix_error_codes text) = None \<and> (\<exists>n. printed (fix_error_codes text) = Some n))"
proof (intro conjI ballI impI)
  fix m assume m: "m \<in> set (finditer text)"
  show "group2_text m \<noteq> []" "list_all is_digit (group2_text m)" "start2 m \<le> end2 m"
    using finditer_group2 [OF m] by simp_all
  assume "int (length (group2_text m)) \<le> max_str_digits"
  then show "py_int (group2_text m) = Inr (digits_value (group2_text m))"
    using finditer_group2 [OF m] by (simp add: py_int_Inr)
next
  assume "within_limits text"
  from within_limits_run [OF this]
  obtain st :: state where st: "fix_error_codes text
         = \<lparr>file_text = content st, printed = Some (next_code st), raised = None\<rparr>"
    by blast
  show "raised (fix_error_codes text) = None" "\<exists>n. printed (fix_error_codes text) = Some n"
    unfolding st by simp_all
qed

text \<open>
  C8, as stated, fails: on a text with one assignment whose number has 4301 digits, \<open>int\<close>
  raises \<open>ValueError\<close> at the first match; nothing is written and nothing is printed.
\<close>

theorem long_code_counterexample:
  "fix_error_codes ('' a='' @ replicate 4301 CHR ''9'' @ '','')
     = \<lparr>file_text = '' a='' @ replicate 4301 CHR ''9'' @ '','', printed = None,
        raised = Some ValueError\<rparr>"
  by (rule long_code_raises) simp

theorem raises_only_beyond_limits_witness:
  "within_limits '' a=2134, b=2134, c=7,''
   \<and> length (finditer '' a=2134, b=2134, c=7,'') = 3
   \<and> list_all (\<lambda>m. group2_text m \<noteq> [] \<and> list_all is_digit (group2_text m) \<and> start2 m \<le> end2 m
          \<and> py_int (group2_text m) = Inr (digits_value (group2_text m)))
        (finditer '' a=2134, b=2134, c=7,'')
   \<and> raised (fix_error_codes '' a=2134, b=2134, c=7,'') = None
   \<and> (\<exists>n. printed (fix_error_codes '' a=2134, b=2134, c=7,'') = Some n)"
proof -
  let ?t = "'' a=2134, b=2134, c=7,''"
  have l: "length (finditer ?t) = 3" by code_simp
  have "2135 + int (length (finditer ?t)) < 10000" by code_simp
  moreover have "list_all (\<lambda>m. int (length (group2_text m)) \<le> 4300
                     \<and> digits_value (group2_text m) + int (length (finditer ?t)) < 10000)
          (finditer ?t)" by code_simp
  ultimately have w: "within_limits ?t" by (rule within_limits_small)
  have s: "list_all (\<lambda>m. int (length (group2_text m)) \<le> max_str_digits) (finditer ?t)"
    using w unfolding within_limits_def list_all_iff by blast
  show ?thesis
    using raises_only_beyond_limits [of ?t] w l s
    unfolding list_all_iff by blast
qed

subsection \<open>Runs on concrete texts\<close>

text \<open>
  C4, as stated, fails: in the text of the two lines \<open>A = 2134,\<close> and \<open>B = 2134,\<close> the
  first line has no whitespace before \<open>A\<close>, so the pattern, which begins with \<open>\s+\<close>, does
  not match it. Only the second line is a match, its code has not been seen, and the text is
  written back as it was, with 2135 printed.
\<close>

theorem example1_unindented:
  "fix_error_codes ''A = 2134,\<newline>B = 2134,\<newline>''
     = \<lparr>file_text = ''A = 2134,\<newline>B = 2134,\<newline>'', printed = Some 2135, raised = None\<rparr>"
  by code_simp

text \<open>
  C4, amended: when each of the two lines is indented (here by four blanks), the output is
  the indented lines \<open>A = 2134,\<close> and \<open>B = 2135,\<close>, and 2136 is printed.
\<close>

theorem example1_indented:
  "fix_error_codes ''    A = 2134,\<newline>    B = 2134,\<newline>''
     = \<lparr>file_text = ''    A = 2134,\<newline>    B = 2135,\<newline>'', printed = Some 2136,
        raised = None\<rparr>"
  by code_simp

text \<open>
  C1 fails on the code: the number handed out for the repeated 2134 is 2135, which the third
  line, not yet visited, already carries. The text that is written has two assignments
  with the qualifying code 2135.
\<close>

theorem forward_collision:
  "fix_error_codes ''  A = 2134,\<newline>  B = 2134,\<newline>  C = 2135,\<newline>''
     = \<lparr>file_text = ''  A = 2134,\<newline>  B = 2135,\<newline>  C = 2135,\<newline>'',
        printed = Some 2136, raised = None\<rparr>
   \<and> qualifying_codes ''  A = 2134,\<newline>  B = 2135,\<newline>  C = 2135,\<newline>''
       = [2134, 2135, 2135]"
  by code_simp

text \<open>
  C3 fails on the code: the spans of the matches are those of the text as it was read. The
  first splice writes nine digits over four, so the splice for \<open>d\<close> lands five characters
  to the left of its digits, on the assignment \<open>c=7,\<close>, whose code is below 2134.
\<close>

theorem stale_offsets_clobber:
  "matched_codes (finditer '' x=99999999, a=2134, b=2134, c=7, d=2134,'')
     = [99999999, 2134, 2134, 7, 2134]
   \<and> fix_error_codes '' x=99999999, a=2134, b=2134, c=7, d=2134,''
     = \<lparr>file_text = '' x=99999999, a=2134, b=100000000, c=100000001=2134,'',
        printed = Some 100000002, raised = None\<rparr>"
  by code_simp

subsection \<open>The numbers handed out\<close>

text \<open>
  C5: over one run the numbers handed out as replacements are strictly increasing, hence
  pairwise different, and at the moment a number is handed out it is not a key of
  \<open>seen_codes\<close>.
\<close>

theorem replacements_monotonic:
  "sorted_wrt (<) (map snd (replacements (finditer text) (init_state text)))
   \<and> distinct (map snd (replacements (finditer text) (init_state text)))
   \<and> (\<forall>(seen, r) \<in> set (replacements (finditer text) (init_state text)). seen r = None)"
proof -
  let ?evs = "replacements (finditer text) (init_state text)"
  have s: "sorted_wrt (<) (map snd ?evs)"
    using replacements_increasing [OF init_state_inv] .
  then have "distinct (map snd ?evs)"
    by (simp add: strict_sorted_iff)
  moreover have "\<forall>(seen, r) \<in> set ?evs. seen r = None"
    using replacements_bounds [OF init_state_inv] by blast
  ultimately show ?thesis using s by blast
qed

theorem replacements_monotonic_witness:
  "map snd (replacements (finditer '' a=2134, b=2134, c=2140, d=2134,'')
                         (init_state '' a=2134, b=2134, c=2140, d=2134,'')) = [2135, 2141]
   \<and> sorted_wrt (<) [2135, 2141 :: int]
   \<and> distinct [2135, 2141 :: int]
   \<and> list_all (\<lambda>(seen, r). seen r = None)
        (replacements (finditer '' a=2134, b=2134, c=2140, d=2134,'')
                      (init_state '' a=2134, b=2134, c=2140, d=2134,''))"
proof -
  have "map snd (replacements (finditer '' a=2134, b=2134, c=2140, d=2134,'')
                         (init_state '' a=2134, b=2134, c=2140, d=2134,'')) = [2135, 2141]"
    by code_simp
  then show ?thesis
    using replacements_monotonic [of "'' a=2134, b=2134, c=2140, d=2134,''"]
    unfolding list_all_iff by simp
qed

text \<open>
  C10: at every iteration that is reached and after the last one (that is, after each prefix
  of the matches on which the loop has not raised) \<open>next_code\<close> is above every key of
  \<open>seen_codes\<close> and above every replacement handed out so far; the counter at the end of the
  loop, which is the printed one, is above every qualifying code matched in the text that
  was read and above every replacement written. On a text within the limits of the
  conversions every iteration is reached and the counter is printed.
\<close>

theorem next_code_above:
  "(\<forall>k \<le> length (finditer text). \<forall>st.
      for_loop (take k (finditer text)) (init_state text) = Inr st
      \<longrightarrow> (\<forall>c. seen_codes st c \<noteq> None \<longrightarrow> c < next_code st)
        \<and> (\<forall>p \<in> set (replacements (take k (finditer text)) (init_state text)).
              snd p < next_code st))
   \<and> (\<forall>st. for_loop (finditer text) (init_state text) = Inr st
        \<longrightarrow> (\<forall>c \<in> set (qualifying_codes text). c < next_code st)
          \<and> (\<forall>p \<in> set (replacements (finditer text) (init_state text)). snd p < next_code st))
   \<and> (\<forall>n. printed (fix_error_codes text) = Some n
        \<longrightarrow> (\<forall>c \<in> set (qualifying_codes text). c < n)
          \<and> (\<forall>p \<in> set (replacements (finditer text) (init_state text)). snd p < n))
   \<and> (within_limits text
        \<longrightarrow> (\<forall>k \<le> length (finditer text).
               \<exists>st. for_loop (take k (finditer text)) (init_state text) = Inr st)
          \<and> (\<exists>n. printed (fix_error_codes text) = Some n))"
proof -
  have final: "\<And>st. for_loop (finditer text) (init_state text) = Inr st
        \<Longrightarrow> (\<forall>c \<in> set (qualifying_codes text). c < next_code st)
          \<and> (\<forall>p \<in> set (replacements (finditer text) (init_state text)). snd p < next_code st)"
  proof -
    fix st assume st: "for_loop (finditer text) (init_state text) = Inr st"
    have "\<forall>c \<in> set (qualifying_codes text). c < next_code st"
      using for_loop_seen [OF st _ init_state_inv] for_loop_inv [OF st init_state_inv]
      unfolding qualifying_codes_def by blast
    moreover have "\<forall>p \<in> set (replacements (finditer text) (init_state text)). snd p < next_code st"
      using for_loop_inv [OF st init_state_inv] by blast
    ultimately show "(\<forall>c \<in> set (qualifying_codes text). c < next_code st)
          \<and> (\<forall>p \<in> set (replacements (finditer text) (init_state text)). snd p < next_code st)"
      by blast
  qed
  have 1: "\<forall>k \<le> length (finditer text). \<forall>st.
      for_loop (take k (finditer text)) (init_state text) = Inr st
      \<longrightarrow> (\<forall>c. seen_codes st c \<noteq> None \<longrightarrow> c < next_code st)
        \<and> (\<forall>p \<in> set (replacements (take k (finditer text)) (init_state text)).
              snd p < next_code st)"
    using for_loop_inv [OF _ init_state_inv] by blast
  have 2: "\<forall>st. for_loop (finditer text) (init_state text) = Inr st
        \<longrightarrow> (\<forall>c \<in> set (qualifying_codes text). c < next_code st)
          \<and> (\<forall>p \<in> set (replacements (finditer text) (init_state text)). snd p < next_code st)"
    using final by blast
  have 3: "\<forall>n. printed (fix_error_codes text) = Some n
        \<longrightarrow> (\<forall>c \<in> set (qualifying_codes text). c < n)
          \<and> (\<forall>p \<in> set (replacements (finditer text) (init_state text)). snd p < n)"
    unfolding printed_Some using final by blast
  have 4: "within_limits text
        \<longrightarrow> (\<forall>k \<le> length (finditer text).
               \<exists>st. for_loop (take k (finditer text)) (init_state text) = Inr st)
          \<and> (\<exists>n. printed (fix_error_codes text) = Some n)"
  proof
    assume "within_limits text"
    from within_limits_run [OF this]
    obtain st :: state where st: "for_loop (finditer text) (init_state text) = Inr st"
      "fix_error_codes text
         = \<lparr>file_text = content st, printed = Some (next_code st), raised = None\<rparr>"
      by blast
    have "\<exists>n. printed (fix_error_codes text) = Some n" unfolding st(2) by simp
    then show "(\<forall>k \<le> length (finditer text).
               \<exists>st. for_loop (take k (finditer text)) (init_state text) = Inr st)
          \<and> (\<exists>n. printed (fix_error_codes text) = Some n)"
      using for_loop_prefix [OF st(1)] by blast
  qed
  show ?thesis using 1 2 3 4 by blast
qed

theorem next_code_above_witness:
  "within_limits '' a=2134, b=2134, c=2140, d=2134,''
   \<and> length (finditer '' a=2134, b=2134, c=2140, d=2134,'') = 4
   \<and> list_all (\<lambda>k. \<exists>st. for_loop (take k (finditer '' a=2134, b=2134, c=2140, d=2134,''))
                          (init_state '' a=2134, b=2134, c=2140, d=2134,'') = Inr st
        \<and> (\<forall>c. seen_codes st c \<noteq> None \<longrightarrow> c < next_code st)
        \<and> list_all (\<lambda>p. snd p < next_code st)
             (replacements (take k (finditer '' a=2134, b=2134, c=2140, d=2134,''))
                           (init_state '' a=2134, b=2134, c=2140, d=2134,''))) [0, 1, 2, 3, 4]
   \<and> printed (fix_error_codes '' a=2134, b=2134, c=2140, d=2134,'') = Some 2142
   \<and> list_all (\<lambda>c. c < 2142) (qualifying_codes '' a=2134, b=2134, c=2140, d=2134,'')
   \<and> list_all (\<lambda>p. snd p < 2142)
             (replacements (finditer '' a=2134, b=2134, c=2140, d=2134,'')
                           (init_state '' a=2134, b=2134, c=2140, d=2134,''))"
proof -
  let ?t = "'' a=2134, b=2134, c=2140, d=2134,''"
  have l: "length (finditer ?t) = 4" by code_simp
  have p: "printed (fix_error_codes ?t) = Some 2142" by code_simp
  have "2135 + int (length (finditer ?t)) < 10000" by code_simp
  moreover have "list_all (\<lambda>m. int (length (group2_text m)) \<le> 4300
                     \<and> digits_value (group2_text m) + int (length (finditer ?t)) < 10000)
          (finditer ?t)" by code_simp
  ultimately have w: "within_limits ?t" by (rule within_limits_small)
  note th = next_code_above [of ?t]
  have a0: "\<exists>st. for_loop (take k (finditer ?t)) (init_state ?t) = Inr st
        \<and> (\<forall>c. seen_codes st c \<noteq> None \<longrightarrow> c < next_code st)
        \<and> list_all (\<lambda>p. snd p < next_code st)
             (replacements (take k (finditer ?t)) (init_state ?t))" if "k \<le> 4" for k
  proof -
    have k: "k \<le> length (finditer ?t)" using that l by simp
    obtain st where st: "for_loop (take k (finditer ?t)) (init_state ?t) = Inr st"
      using th w k by blast
    have "(\<forall>c. seen_codes st c \<noteq> None \<longrightarrow> c < next_code st)
        \<and> (\<forall>p \<in> set (replacements (take k (finditer ?t)) (init_state ?t)). snd p < next_code st)"
      using th [THEN conjunct1, rule_format, OF k st] .
    then show ?thesis using st unfolding list_all_iff by blast
  qed
  have a: "list_all (\<lambda>k. \<exists>st. for_loop (take k (finditer ?t)) (init_state ?t) = Inr st
        \<and> (\<forall>c. seen_codes st c \<noteq> None \<longrightarrow> c < next_code st)
        \<and> list_all (\<lambda>p. snd p < next_code st)
             (replacements (take k (finditer ?t)) (init_state ?t))) [0, 1, 2, 3, 4]"
    unfolding list.pred_inject by (intro conjI a0 TrueI) simp_all
  have b: "list_all (\<lambda>c. c < 2142) (qualifying_codes ?t)
     \<and> list_all (\<lambda>p. snd p < 2142) (replacements (finditer ?t) (init_state ?t))"
    using th p unfolding list_all_iff by blast
  show ?thesis using w l a p b by blast
qed

subsection \<open>Texts without repeated codes\<close>

lemma for_loop_no_duplicate:
  "for_loop ms st = Inr st' \<Longrightarrow>
   distinct (qualifying (matched_codes ms)) \<Longrightarrow>
   (\<And>c. c \<in> set (qualifying (matched_codes ms)) \<Longrightarrow> seen_codes st c = None) \<Longrightarrow>
   content st' = content st"
proof (induction ms arbitrary: st)
  case Nil
  then show ?case by simp
next
  case (Cons m ms)
  let ?code = "digits_value (group2_text m)"
  obtain st1 where s1: "loop_body m st = Inr st1" and r: "for_loop ms st1 = Inr st'"
    using Cons.prems(1) by (auto split: sum.splits)
  have c: "py_int (group2_text m) = Inr ?code"
    using loop_body_cases [OF s1] by (auto simp: py_int_Inr)
  have dist: "distinct (qualifying (matched_codes ms))"
    using Cons.prems(2) by (simp split: if_splits)
  show ?case
  proof (cases "?code \<ge> 2134")
    case False
    then have "st1 = st" using s1 loop_body_below [OF c] by simp
    moreover have "\<And>c. c \<in> set (qualifying (matched_codes ms)) \<Longrightarrow> seen_codes st c = None"
      using Cons.prems(3) False by simp
    ultimately show ?thesis using Cons.IH [OF _ dist, of st] r by simp
  next
    case True
    have unseen: "seen_codes st ?code = None"
      using Cons.prems(3) [of ?code] True by simp
    have st1: "st1 = (if ?code \<ge> next_code st
          then st\<lparr>seen_codes := (seen_codes st)(?code \<mapsto> True), next_code := ?code + 1\<rparr>
          else st\<lparr>seen_codes := (seen_codes st)(?code \<mapsto> True)\<rparr>)"
      using s1 loop_body_new [OF c True unseen] by simp
    have c1: "content st1 = content st" by (simp add: st1)
    have notin: "?code \<notin> set (qualifying (matched_codes ms))"
      using Cons.prems(2) True by simp
    have "\<And>c. c \<in> set (qualifying (matched_codes ms)) \<Longrightarrow> seen_codes st1 c = None"
    proof -
      fix c assume c: "c \<in> set (qualifying (matched_codes ms))"
      then have "c \<noteq> ?code" using notin by blast
      moreover have "seen_codes st c = None"
        using Cons.prems(3) [of c] c True by simp
      ultimately show "seen_codes st1 c = None" by (simp add: st1)
    qed
    then show ?thesis using Cons.IH [OF r dist] c1 by simp
  qed
qed

lemma for_loop_no_qualifying:
  "for_loop ms st = Inr st' \<Longrightarrow> qualifying (matched_codes ms) = [] \<Longrightarrow> st' = st"
proof (induction ms)
  case Nil
  then show ?case by simp
next
  case (Cons m ms)
  obtain st1 where s1: "loop_body m st = Inr st1" and r: "for_loop ms st1 = Inr st'"
    using Cons.prems(1) by (auto split: sum.splits)
  have c: "py_int (group2_text m) = Inr (digits_value (group2_text m))"
    using loop_body_cases [OF s1] by (auto simp: py_int_Inr)
  have low: "digits_value (group2_text m) < 2134" and rest: "qualifying (matched_codes ms) = []"
    using Cons.prems(2) by (auto split: if_splits)
  have "st1 = st" using s1 loop_body_below [OF c low] by simp
  then show ?case using Cons.IH r rest by simp
qed

lemma for_loop_low_total:
  "(\<And>m. m \<in> set ms \<Longrightarrow> group2_text m \<noteq> [] \<and> list_all is_digit (group2_text m)
         \<and> int (length (group2_text m)) \<le> max_str_digits) \<Longrightarrow>
   qualifying (matched_codes ms) = [] \<Longrightarrow> for_loop ms st = Inr st"
proof (induction ms)
  case Nil
  show ?case by simp
next
  case (Cons m ms)
  have c: "py_int (group2_text m) = Inr (digits_value (group2_text m))"
    using Cons.prems(1) [of m] by (simp add: py_int_Inr)
  have low: "digits_value (group2_text m) < 2134" and rest: "qualifying (matched_codes ms) = []"
    using Cons.prems(2) by (auto split: if_splits)
  have "loop_body m st = Inr st" using loop_body_below [OF c low] .
  then show ?case using Cons.IH rest Cons.prems(1) by simp
qed

lemma distinct_unchanged:
  assumes "distinct (qualifying_codes text)"
  shows "file_text (fix_error_codes text) = text"
proof (cases "for_loop (finditer text) (init_state text)")
  case (Inl e)
  then show ?thesis by (simp add: file_text_cases)
next
  case (Inr st)
  have "content st = content (init_state text)"
    using for_loop_no_duplicate [OF Inr] assms
    unfolding qualifying_codes_def by (simp add: init_state_def)
  then show ?thesis using Inr by (simp add: file_text_cases init_state_def)
qed

lemma distinct_completes:
  assumes "distinct (qualifying_codes text)" "within_limits text"
  shows "\<exists>n. fix_error_codes text = \<lparr>file_text = text, printed = Some n, raised = None\<rparr>"
proof -
  obtain st :: state where st: "fix_error_codes text
         = \<lparr>file_text = content st, printed = Some (next_code st), raised = None\<rparr>"
    using within_limits_run [OF assms(2)] by blast
  have "file_text (fix_error_codes text) = text"
    using assms(1) by (rule distinct_unchanged)
  then have "content st = text" unfolding st by simp
  then show ?thesis using st by simp
qed

text \<open>
  C6: when the qualifying codes matched in a text are pairwise distinct, the run leaves the
  text of the file unchanged, and a second run on what the file then holds ends as the first
  one and leaves the same text again. Within the limits of the conversions both runs end
  without an exception.
\<close>

theorem idempotent_on_unique:
  "distinct (qualifying_codes text) \<Longrightarrow>
   file_text (fix_error_codes text) = text
   \<and> fix_error_codes (file_text (fix_error_codes text)) = fix_error_codes text
   \<and> file_text (fix_error_codes (file_text (fix_error_codes text))) = text
   \<and> (within_limits text
        \<longrightarrow> (\<exists>n. fix_error_codes text = \<lparr>file_text = text, printed = Some n, raised = None\<rparr>))"
  using distinct_unchanged [of "text"] distinct_completes [of "text"] by simp

theorem idempotent_on_unique_witness:
  "distinct (qualifying_codes ''  A = 2134,\<newline>  B = 2140,\<newline>  C = 7,\<newline>  D = 7,\<newline>'')
   \<and> within_limits ''  A = 2134,\<newline>  B = 2140,\<newline>  C = 7,\<newline>  D = 7,\<newline>''
   \<and> fix_error_codes ''  A = 2134,\<newline>  B = 2140,\<newline>  C = 7,\<newline>  D = 7,\<newline>''
       = \<lparr>file_text = ''  A = 2134,\<newline>  B = 2140,\<newline>  C = 7,\<newline>  D = 7,\<newline>'',
          printed = Some 2141, raised = None\<rparr>
   \<and> fix_error_codes (file_text
         (fix_error_codes ''  A = 2134,\<newline>  B = 2140,\<newline>  C = 7,\<newline>  D = 7,\<newline>''))
       = \<lparr>file_text = ''  A = 2134,\<newline>  B = 2140,\<newline>  C = 7,\<newline>  D = 7,\<newline>'',
          printed = Some 2141, raised = None\<rparr>"
proof -
  let ?t = "''  A = 2134,\<newline>  B = 2140,\<newline>  C = 7,\<newline>  D = 7,\<newline>''"
  have q: "qualifying_codes ?t = [2134, 2140]" by code_simp
  then have d: "distinct (qualifying_codes ?t)" by simp
  have "2135 + int (length (finditer ?t)) < 10000" by code_simp
  moreover have "list_all (\<lambda>m. int (length (group2_text m)) \<le> 4300
                     \<and> digits_value (group2_text m) + int (length (finditer ?t)) < 10000)
          (finditer ?t)" by code_simp
  ultimately have w: "within_limits ?t" by (rule within_limits_small)
  have n: "printed (fix_error_codes ?t) = Some 2141" by code_simp
  obtain k where k: "fix_error_codes ?t = \<lparr>file_text = ?t, printed = Some k, raised = None\<rparr>"
    using idempotent_on_unique [OF d] w by blast
  then have "k = 2141" using n by simp
  then have r: "fix_error_codes ?t = \<lparr>file_text = ?t, printed = Some 2141, raised = None\<rparr>"
    using k by simp
  have "fix_error_codes (file_text (fix_error_codes ?t)) = fix_error_codes ?t"
    using idempotent_on_unique [OF d] by blast
  then show ?thesis using d w r by simp
qed

text \<open>
  C7: when the pattern has no match in the text, or no match repeats a qualifying code, the
  text of the file is left unchanged. When no match carries a qualifying code, a status line
  that is printed reports the start code 2135, and it is printed (with no exception) when no
  matched digit string has more than 4300 characters, in particular when there is no match.
\<close>

theorem no_duplicate_unchanged:
  "((finditer text = [] \<or> distinct (qualifying_codes text))
      \<longrightarrow> file_text (fix_error_codes text) = text
          \<and> (within_limits text
               \<longrightarrow> (\<exists>n. fix_error_codes text
                         = \<lparr>file_text = text, printed = Some n, raised = None\<rparr>)))
   \<and> (qualifying_codes text = []
        \<longrightarrow> (\<forall>n. printed (fix_error_codes text) = Some n \<longrightarrow> n = 2135)
          \<and> (list_all (\<lambda>m. int (length (group2_text m)) \<le> max_str_digits) (finditer text)
               \<longrightarrow> fix_error_codes text
                     = \<lparr>file_text = text, printed = Some 2135, raised = None\<rparr>))
   \<and> (finditer text = []
        \<longrightarrow> fix_error_codes text = \<lparr>file_text = text, printed = Some 2135, raised = None\<rparr>)"
proof -
  have s: "\<exists>new. str 2135 = Inr new"
    by (rule str_within) (simp_all add: small_below_limit)
  have low: "fix_error_codes text = \<lparr>file_text = text, printed = Some 2135, raised = None\<rparr>"
    if q: "qualifying_codes text = []"
      and l: "list_all (\<lambda>m. int (length (group2_text m)) \<le> max_str_digits) (finditer text)"
  proof -
    have "for_loop (finditer text) (init_state text) = Inr (init_state text)"
      using for_loop_low_total [of "finditer text" "init_state text"] finditer_group2 q l
      unfolding qualifying_codes_def list_all_iff by blast
    then show ?thesis using s
      by (auto simp: fix_error_codes_def finish_def init_state_def)
  qed
  have 1: "(finditer text = [] \<or> distinct (qualifying_codes text))
      \<longrightarrow> file_text (fix_error_codes text) = text
          \<and> (within_limits text
               \<longrightarrow> (\<exists>n. fix_error_codes text
                         = \<lparr>file_text = text, printed = Some n, raised = None\<rparr>))"
  proof
    assume "finditer text = [] \<or> distinct (qualifying_codes text)"
    then have d: "distinct (qualifying_codes text)"
      by (auto simp: qualifying_codes_def)
    show "file_text (fix_error_codes text) = text
          \<and> (within_limits text
               \<longrightarrow> (\<exists>n. fix_error_codes text
                         = \<lparr>file_text = text, printed = Some n, raised = None\<rparr>))"
      using distinct_unchanged [OF d] distinct_completes [OF d] by blast
  qed
  have 2: "qualifying_codes text = []
        \<longrightarrow> (\<forall>n. printed (fix_error_codes text) = Some n \<longrightarrow> n = 2135)
          \<and> (list_all (\<lambda>m. int (length (group2_text m)) \<le> max_str_digits) (finditer text)
               \<longrightarrow> fix_error_codes text
                     = \<lparr>file_text = text, printed = Some 2135, raised = None\<rparr>)"
  proof (intro impI conjI allI)
    fix n assume q: "qualifying_codes text = []" and "printed (fix_error_codes text) = Some n"
    then obtain st where st: "for_loop (finditer text) (init_state text) = Inr st" "next_code st = n"
      unfolding printed_Some by blast
    have "st = init_state text"
      using for_loop_no_qualifying [OF st(1)] q unfolding qualifying_codes_def by simp
    then show "n = 2135" using st(2) by (simp add: init_state_def)
  next
    assume "qualifying_codes text = []"
      "list_all (\<lambda>m. int (length (group2_text m)) \<le> max_str_digits) (finditer text)"
    then show "fix_error_codes text = \<lparr>file_text = text, printed = Some 2135, raised = None\<rparr>"
      by (rule low)
  qed
  have 3: "finditer text = []
        \<longrightarrow> fix_error_codes text = \<lparr>file_text = text, printed = Some 2135, raised = None\<rparr>"
    using low by (simp add: qualifying_codes_def)
  show ?thesis using 1 2 3 by blast
qed

theorem no_duplicate_unchanged_witness:
  "finditer ''fn main() { let x = 1; }'' = []
   \<and> fix_error_codes ''fn main() { let x = 1; }''
       = \<lparr>file_text = ''fn main() { let x = 1; }'', printed = Some 2135, raised = None\<rparr>
   \<and> qualifying_codes ''  A = 10,\<newline>  B = 10,\<newline>'' = []
   \<and> finditer ''  A = 10,\<newline>  B = 10,\<newline>'' \<noteq> []
   \<and> fix_error_codes ''  A = 10,\<newline>  B = 10,\<newline>''
       = \<lparr>file_text = ''  A = 10,\<newline>  B = 10,\<newline>'', printed = Some 2135, raised = None\<rparr>
   \<and> distinct (qualifying_codes ''  A = 2134,\<newline>  B = 10,\<newline>  C = 10,\<newline>'')
   \<and> file_text (fix_error_codes ''  A = 2134,\<newline>  B = 10,\<newline>  C = 10,\<newline>'')
       = ''  A = 2134,\<newline>  B = 10,\<newline>  C = 10,\<newline>''"
proof -
  have a: "finditer ''fn main() { let x = 1; }'' = []" by code_simp
  have c: "qualifying_codes ''  A = 10,\<newline>  B = 10,\<newline>'' = []" by code_simp
  have d: "finditer ''  A = 10,\<newline>  B = 10,\<newline>'' \<noteq> []" by code_simp
  have l: "list_all (\<lambda>m. int (length (group2_text m)) \<le> max_str_digits)
             (finditer ''  A = 10,\<newline>  B = 10,\<newline>'')"
    unfolding max_str_digits_def by code_simp
  have e: "distinct (qualifying_codes ''  A = 2134,\<newline>  B = 10,\<newline>  C = 10,\<newline>'')"
    by code_simp
  note t1 = no_duplicate_unchanged [of "''fn main() { let x = 1; }''",
      THEN conjunct2, THEN conjunct2, rule_format, OF a]
  note t2 = no_duplicate_unchanged [of "''  A = 10,\<newline>  B = 10,\<newline>''",
      THEN conjunct2, THEN conjunct1, rule_format, OF c, THEN conjunct2, rule_format, OF l]
  note t3 = no_duplicate_unchanged [of "''  A = 2134,\<newline>  B = 10,\<newline>  C = 10,\<newline>''",
      THEN conjunct1, rule_format, OF disjI2 [OF e], THEN conjunct1]
  show ?thesis
    by (intro conjI a t1 c d t2 e t3)
qed

subsection \<open>Determinism\<close>






end
